theory Spec2Isabelle
  imports Main "HOL-Library.Sublist"
begin

section \<open>Strings, lines and number formatting\<close>

text \<open>Go's \<^verbatim>\<open>strings.Split(s, sep)\<close> for a one-byte separator: the empty string
  splits into one empty piece, and a trailing separator leaves a trailing empty piece.\<close>

fun split_on :: "char \<Rightarrow> string \<Rightarrow> string list" where
  "split_on sep [] = [[]]"
| "split_on sep (c # cs) =
     (if c = sep then [] # split_on sep cs
      else (case split_on sep cs of
              [] \<Rightarrow> [[c]]
            | w # ws \<Rightarrow> (c # w) # ws))"

definition newline :: char where
  "newline = CHR 0x0A"

text \<open>Decimal digits of a non-negative integer, as \<^verbatim>\<open>%d\<close> prints them.\<close>

fun itoa :: "nat \<Rightarrow> string" where
  "itoa n = (if n < 10 then [''0123456789'' ! n]
             else itoa (n div 10) @ [''0123456789'' ! (n mod 10)])"

declare itoa.simps [simp del]

text \<open>\<^verbatim>\<open>fmt.Sprintf("%4d", n)\<close>: right-aligned in a field of at least four bytes,
  padded with spaces.\<close>

definition Sprintf_4d :: "nat \<Rightarrow> string" where
  "Sprintf_4d n = replicate (4 - length (itoa n)) (CHR '' '') @ itoa n"

section \<open>The diff generator\<close>

text \<open>One assignment \<^verbatim>\<open>table[i][j] = ...\<close> of \<^verbatim>\<open>lcsTable\<close>'s inner loop body.\<close>

definition lcs_cell :: "string list \<Rightarrow> string list \<Rightarrow> nat \<Rightarrow> nat \<Rightarrow> nat list list \<Rightarrow> nat list list" where
  "lcs_cell a b i j table =
     (if a ! (i - 1) = b ! (j - 1)
      then table[i := (table ! i)[j := table ! (i - 1) ! (j - 1) + 1]]
      else if table ! (i - 1) ! j \<ge> table ! i ! (j - 1)
      then table[i := (table ! i)[j := table ! (i - 1) ! j]]
      else table[i := (table ! i)[j := table ! i ! (j - 1)]])"

text \<open>\<^verbatim>\<open>lcsTable\<close>: an (m+1) by (n+1) table of zeros, filled row by row for
  \<open>i = 1..m\<close> and \<open>j = 1..n\<close>.\<close>

definition lcsTable :: "string list \<Rightarrow> string list \<Rightarrow> nat list list" where
  "lcsTable a b =
     (let m = length a; n = length b;
          table = replicate (m + 1) (replicate (n + 1) 0)
      in fold (\<lambda>i t. fold (\<lambda>j t'. lcs_cell a b i j t') [1..<n + 1] t) [1..<m + 1] table)"

text \<open>The three \<^verbatim>\<open>fmt.Sprintf\<close> calls of the backtracking loop.\<close>

definition context_line :: "nat \<Rightarrow> string \<Rightarrow> string" where
  "context_line i s = '' '' @ Sprintf_4d i @ ''  '' @ s"

definition addition_line :: "nat \<Rightarrow> string \<Rightarrow> string" where
  "addition_line j s = ''+'' @ Sprintf_4d j @ ''  '' @ s"

definition removal_line :: "nat \<Rightarrow> string \<Rightarrow> string" where
  "removal_line i s = ''-'' @ Sprintf_4d i @ ''  '' @ s"

text \<open>The backtracking loop \<^verbatim>\<open>for i > 0 || j > 0\<close> of \<^verbatim>\<open>unifiedDiff\<close>; \<open>lines\<close> is
  the slice the loop appends to (so it is built tail-first).\<close>

function diff_loop ::
  "string list \<Rightarrow> string list \<Rightarrow> nat list list \<Rightarrow> nat \<Rightarrow> nat \<Rightarrow> string list \<Rightarrow> string list" where
  "diff_loop expLines actLines lcs i j lines =
     (if i > 0 \<or> j > 0 then
        (if i > 0 \<and> j > 0 \<and> expLines ! (i - 1) = actLines ! (j - 1)
         then diff_loop expLines actLines lcs (i - 1) (j - 1)
                (lines @ [context_line i (expLines ! (i - 1))])
         else if j > 0 \<and> (i = 0 \<or> lcs ! i ! (j - 1) \<ge> lcs ! (i - 1) ! j)
         then diff_loop expLines actLines lcs i (j - 1)
                (lines @ [addition_line j (actLines ! (j - 1))])
         else diff_loop expLines actLines lcs (i - 1) j
                (lines @ [removal_line i (expLines ! (i - 1))]))
      else lines)"
  by pat_completeness auto
termination
  by (relation "measure (\<lambda>(e, a, l, i, j, ls). i + j)") auto

declare diff_loop.simps [simp del]

text \<open>\<^verbatim>\<open>unifiedDiff\<close>: the two header lines, then the collected lines written back to
  front, each followed by a newline.\<close>

definition unifiedDiff :: "string \<Rightarrow> string \<Rightarrow> string" where
  "unifiedDiff expected actual =
     (let expLines = split_on newline expected;
          actLines = split_on newline actual;
          lcs = lcsTable expLines actLines;
          lines = diff_loop expLines actLines lcs (length expLines) (length actLines) []
      in ''--- expected'' @ [newline] @ ''+++ actual'' @ [newline]
         @ concat (map (\<lambda>l. l @ [newline]) (rev lines)))"


text \<open>The table as the specification describes it: the length of a longest common
  subsequence of the first \<open>i\<close> lines of \<open>a\<close> and the first \<open>j\<close> lines of \<open>b\<close>, by the
  standard recurrence.\<close>

fun lcs_len :: "string list \<Rightarrow> string list \<Rightarrow> nat \<Rightarrow> nat \<Rightarrow> nat" where
  "lcs_len a b 0 j = 0"
| "lcs_len a b (Suc i) 0 = 0"
| "lcs_len a b (Suc i) (Suc j) =
     (if a ! i = b ! j then lcs_len a b i j + 1
      else max (lcs_len a b i (Suc j)) (lcs_len a b (Suc i) j))"

text \<open>The table while \<^verbatim>\<open>lcsTable\<close> fills it: it has its full size, and every cell before
  position \<open>(i0, j0)\<close> in row order, and the whole first column, holds its final value.\<close>

definition table_filled ::
  "string list \<Rightarrow> string list \<Rightarrow> nat list list \<Rightarrow> nat \<Rightarrow> nat \<Rightarrow> bool" where
  "table_filled a b t i0 j0 \<longleftrightarrow>
     length t = length a + 1 \<and> (\<forall>r \<le> length a. length (t ! r) = length b + 1) \<and>
     (\<forall>i j. i \<le> length a \<and> j \<le> length b \<and> (i < i0 \<or> (i = i0 \<and> j < j0) \<or> j = 0)
        \<longrightarrow> t ! i ! j = lcs_len a b i j)"

section \<open>Library model: \<^verbatim>\<open>path/filepath\<close> on Unix\<close>

text \<open>\<^verbatim>\<open>strings.Join\<close>.\<close>

fun strings_Join :: "string list \<Rightarrow> string \<Rightarrow> string" where
  "strings_Join [] sep = []"
| "strings_Join [x] sep = x"
| "strings_Join (x # y # ys) sep = x @ sep @ strings_Join (y # ys) sep"

text \<open>The lexical rules of \<^verbatim>\<open>filepath.Clean\<close>, one path element at a time. The stack
  holds the elements kept so far, last one first: empty and \<^verbatim>\<open>.\<close> elements are
  dropped; \<^verbatim>\<open>..\<close> removes the element before it, is dropped at the root, and is kept
  at the front of a relative path.\<close>

definition clean_step :: "bool \<Rightarrow> string list \<Rightarrow> string \<Rightarrow> string list" where
  "clean_step rooted stack c =
     (if c = [] \<or> c = ''.'' then stack
      else if c = ''..'' then
        (case stack of
           [] \<Rightarrow> if rooted then [] else [''..'']
         | e # rest \<Rightarrow> if e = ''..'' then ''..'' # stack else rest)
      else c # stack)"

definition filepath_Clean :: "string \<Rightarrow> string" where
  "filepath_Clean path =
     (if path = [] then ''.''
      else
        (let rooted = (hd path = CHR ''/'');
             elems = rev (foldl (clean_step rooted) [] (split_on (CHR ''/'') path));
             out = strings_Join elems ''/''
         in if rooted then ''/'' @ out
            else if elems = [] then ''.''
            else out))"

text \<open>\<^verbatim>\<open>filepath.Join\<close>: leading empty elements are ignored, the rest is joined with
  the separator and cleaned; all elements empty gives the empty string.\<close>

definition filepath_Join :: "string list \<Rightarrow> string" where
  "filepath_Join elem =
     (case dropWhile (\<lambda>e. e = []) elem of
        [] \<Rightarrow> []
      | e # es \<Rightarrow> filepath_Clean (strings_Join (e # es) ''/''))"

text \<open>\<^verbatim>\<open>filepath.Dir\<close>: everything up to and including the last separator, cleaned.\<close>

definition filepath_Dir :: "string \<Rightarrow> string" where
  "filepath_Dir path = filepath_Clean (rev (dropWhile (\<lambda>c. c \<noteq> CHR ''/'') (rev path)))"

text \<open>The stacks that \<open>clean_step\<close> builds: no element is empty, is \<^verbatim>\<open>.\<close> or has a
  separator in it, and \<^verbatim>\<open>..\<close> elements sit only at the bottom of the stack of a path that
  is not rooted.\<close>

fun normal_stack :: "bool \<Rightarrow> string list \<Rightarrow> bool" where
  "normal_stack r [] = True"
| "normal_stack r (e # st) =
     (e \<noteq> [] \<and> e \<noteq> ''.'' \<and> CHR ''/'' \<notin> set e
      \<and> (e = ''..'' \<longrightarrow> \<not> r \<and> (\<forall>x \<in> set st. x = ''..''))
      \<and> normal_stack r st)"

section \<open>Library model: the file tree behind package \<^verbatim>\<open>os\<close>\<close>

text \<open>A file tree maps an absolute path, as the list of its elements from the root, to
  a regular file with its bytes or to a directory. The root (the empty list) is always a
  directory. Permissions, links and devices are left out, so the only I/O errors are the
  structural ones: a missing element, a regular file where a directory is needed, a
  directory where a file is needed.\<close>

datatype node = File string | Directory

type_synonym file_tree = "string list \<rightharpoonup> node"

record filesys =
  tree :: file_tree
  cwd :: "string list"

datatype errno = ENOENT | ENOTDIR | EISDIR | EEXIST

text \<open>\<^verbatim>\<open>*fs.PathError\<close>: operation, path, underlying error.\<close>

datatype os_error = PathError string string errno

fun errno_Error :: "errno \<Rightarrow> string" where
  "errno_Error ENOENT = ''no such file or directory''"
| "errno_Error ENOTDIR = ''not a directory''"
| "errno_Error EISDIR = ''is a directory''"
| "errno_Error EEXIST = ''file exists''"

text \<open>\<^verbatim>\<open>(*PathError).Error\<close>, which is what \<^verbatim>\<open>%v\<close> prints for an error.\<close>

fun Error :: "os_error \<Rightarrow> string" where
  "Error (PathError op path e) = op @ '' '' @ path @ '': '' @ errno_Error e"

text \<open>\<^verbatim>\<open>os.IsNotExist\<close>.\<close>

fun os_IsNotExist :: "os_error \<Rightarrow> bool" where
  "os_IsNotExist (PathError op path e) = (e = ENOENT)"

text \<open>Path lookup as the kernel does it: walk down from the directory \<open>cur\<close>.\<close>

fun namei :: "file_tree \<Rightarrow> string list \<Rightarrow> string list \<Rightarrow> errno + node" where
  "namei t cur [] = Inr Directory"
| "namei t cur (c # cs) =
     (case t (cur @ [c]) of
        None \<Rightarrow> Inl ENOENT
      | Some (File d) \<Rightarrow> if cs = [] then Inr (File d) else Inl ENOTDIR
      | Some Directory \<Rightarrow> namei t (cur @ [c]) cs)"

text \<open>The absolute element list a path string names: relative paths start at the
  working directory; \<^verbatim>\<open>.\<close> and empty elements stay, \<^verbatim>\<open>..\<close> goes up (and stays at
  the root).\<close>

definition walk_step :: "string list \<Rightarrow> string \<Rightarrow> string list" where
  "walk_step key c =
     (if c = [] \<or> c = ''.'' then key
      else if c = ''..'' then butlast key
      else key @ [c])"

definition abs_key :: "string list \<Rightarrow> string \<Rightarrow> string list" where
  "abs_key wd path =
     foldl walk_step (if path \<noteq> [] \<and> hd path = CHR ''/'' then [] else wd)
       (split_on (CHR ''/'') path)"

definition os_Stat :: "filesys \<Rightarrow> string \<Rightarrow> errno + node" where
  "os_Stat d path =
     (if path = [] then Inl ENOENT else namei (tree d) [] (abs_key (cwd d) path))"

text \<open>\<^verbatim>\<open>os.ReadFile\<close>.\<close>

definition os_ReadFile :: "filesys \<Rightarrow> string \<Rightarrow> os_error + string" where
  "os_ReadFile d path =
     (case os_Stat d path of
        Inl e \<Rightarrow> Inl (PathError ''open'' path e)
      | Inr Directory \<Rightarrow> Inl (PathError ''read'' path EISDIR)
      | Inr (File bytes) \<Rightarrow> Inr bytes)"

text \<open>\<^verbatim>\<open>os.WriteFile\<close>: open for writing, creating or truncating, then write all of
  \<open>data\<close>. The containing directory must exist.\<close>

definition os_WriteFile :: "filesys \<Rightarrow> string \<Rightarrow> string \<Rightarrow> os_error option \<times> filesys" where
  "os_WriteFile d path data =
     (let key = abs_key (cwd d) path in
      if path = [] then (Some (PathError ''open'' path ENOENT), d)
      else if key = [] then (Some (PathError ''open'' path EISDIR), d)
      else
        (case namei (tree d) [] (butlast key) of
           Inl e \<Rightarrow> (Some (PathError ''open'' path e), d)
         | Inr (File x) \<Rightarrow> (Some (PathError ''open'' path ENOTDIR), d)
         | Inr Directory \<Rightarrow>
             (case tree d key of
                Some Directory \<Rightarrow> (Some (PathError ''open'' path EISDIR), d)
              | _ \<Rightarrow> (None, d\<lparr>tree := (tree d)(key \<mapsto> File data)\<rparr>))))"

text \<open>\<^verbatim>\<open>os.Mkdir\<close>.\<close>

definition os_Mkdir :: "filesys \<Rightarrow> string \<Rightarrow> os_error option \<times> filesys" where
  "os_Mkdir d path =
     (let key = abs_key (cwd d) path in
      if path = [] then (Some (PathError ''mkdir'' path ENOENT), d)
      else if key = [] then (Some (PathError ''mkdir'' path EEXIST), d)
      else
        (case namei (tree d) [] (butlast key) of
           Inl e \<Rightarrow> (Some (PathError ''mkdir'' path e), d)
         | Inr (File x) \<Rightarrow> (Some (PathError ''mkdir'' path ENOTDIR), d)
         | Inr Directory \<Rightarrow>
             (case tree d key of
                Some x \<Rightarrow> (Some (PathError ''mkdir'' path EEXIST), d)
              | None \<Rightarrow> (None, d\<lparr>tree := (tree d)(key \<mapsto> Directory)\<rparr>))))"

text \<open>The parent that \<^verbatim>\<open>os.MkdirAll\<close> recurses on: the path without its trailing
  separators and without its last element.\<close>

definition mkdir_parent :: "string \<Rightarrow> string" where
  "mkdir_parent path =
     rev (dropWhile (\<lambda>c. c \<noteq> CHR ''/'') (dropWhile (\<lambda>c. c = CHR ''/'') (rev path)))"

text \<open>\<^verbatim>\<open>os.MkdirAll\<close>: nothing to do when the path is a directory already, an error
  when it is a file; otherwise make the parent first and then the directory itself.\<close>

function os_MkdirAll :: "filesys \<Rightarrow> string \<Rightarrow> os_error option \<times> filesys" where
  "os_MkdirAll d path =
     (case os_Stat d path of
        Inr Directory \<Rightarrow> (None, d)
      | Inr (File x) \<Rightarrow> (Some (PathError ''mkdir'' path ENOTDIR), d)
      | Inl e \<Rightarrow>
          (let parent = mkdir_parent path;
               (err, d') = (if parent \<noteq> [] then os_MkdirAll d parent else (None, d))
           in if err \<noteq> None then (err, d')
              else
                (case os_Mkdir d' path of
                   (None, d'') \<Rightarrow> (None, d'')
                 | (Some err', d'') \<Rightarrow>
                     (case os_Stat d' path of
                        Inr Directory \<Rightarrow> (None, d')
                      | _ \<Rightarrow> (Some err', d')))))"
  by pat_completeness auto
termination
proof (relation "measure (\<lambda>(d, path). length path)")
  show "wf (measure (\<lambda>(d, path). length path))" by simp
next
  fix d :: filesys and path :: string and e x
  assume x: "x = mkdir_parent path" and "x \<noteq> []"
  then have "rev path \<noteq> []" by (auto simp: mkdir_parent_def)
  then obtain c cs where r: "rev path = c # cs" by (cases "rev path") auto
  have le: "\<And>P xs. length (dropWhile P xs) \<le> length (xs::string)"
    by (simp add: length_dropWhile_le)
  have "length (dropWhile (\<lambda>c. c \<noteq> CHR ''/'') (dropWhile (\<lambda>c. c = CHR ''/'') (c # cs)))
        \<le> length cs"
  proof (cases "c = CHR ''/''")
    case True
    have "length (dropWhile (\<lambda>c. c \<noteq> CHR ''/'') (dropWhile (\<lambda>c. c = CHR ''/'') cs))
          \<le> length (dropWhile (\<lambda>c. c = CHR ''/'') cs)" by (rule le)
    also have "\<dots> \<le> length cs" by (rule le)
    finally show ?thesis using True by simp
  next
    case False
    then show ?thesis using le[of "\<lambda>c. c \<noteq> CHR ''/''" cs] by simp
  qed
  then have "length x < length path"
    using r x length_rev[of path] by (simp add: mkdir_parent_def)
  then show "((d, x), (d, path)) \<in> measure (\<lambda>(d, path). length path)" by simp
qed

declare os_MkdirAll.simps [simp del]

text \<open>A tree with every missing proper or improper ancestor of the key \<open>K\<close> added as
  a directory (the root, the empty key, is always there); every entry that is already in
  the tree stays as it is. This is the tree that \<^verbatim>\<open>os.MkdirAll\<close> is shown to leave
  behind.\<close>

definition with_dirs :: "file_tree \<Rightarrow> string list \<Rightarrow> file_tree" where
  "with_dirs T K = (\<lambda>k. if k \<noteq> [] \<and> prefix k K \<and> T k = None then Some Directory else T k)"


text \<open>\<^verbatim>\<open>runtime.Caller(skip)\<close>: the source file of the \<open>skip\<close>-th frame of the calling
  goroutine's stack (frame 0 is the function that calls \<^verbatim>\<open>runtime.Caller\<close>), or not
  ok when the stack is shorter.\<close>

definition runtime_Caller :: "string list \<Rightarrow> nat \<Rightarrow> string option" where
  "runtime_Caller frames skip = (if skip < length frames then Some (frames ! skip) else None)"


section \<open>The snapshot engine\<close>

text \<open>What the engine takes from outside this repository and only passes strings
  through: how \<^verbatim>\<open>%q\<close> quotes a string and what \<^verbatim>\<open>ansi.Strip\<close> removes.\<close>

record lib =
  Sprintf_q :: "string \<Rightarrow> string"
  ansi_Strip :: "string \<Rightarrow> string"

text \<open>The package's two variables and the disk.\<close>

record world =
  UpdateSnapshots :: bool
  snapshotBaseDir :: string
  disk :: filesys

text \<open>How a call ends for the test: it returns with nothing reported, it reports a
  failure with \<^verbatim>\<open>t.Errorf\<close> and returns, it stops the test with \<^verbatim>\<open>t.Fatalf\<close> (which
  does not return), or it panics.\<close>

datatype outcome = Return | Errorf string | Fatalf string | Panic string



text \<open>\<^verbatim>\<open>StripANSI\<close> delegates to \<^verbatim>\<open>ansi.Strip\<close>.\<close>

definition StripANSI :: "lib \<Rightarrow> string \<Rightarrow> string" where
  "StripANSI L s = ansi_Strip L s"

text \<open>\<^verbatim>\<open>snapshotPath\<close>; \<open>frames\<close> is the stack that \<^verbatim>\<open>runtime.Caller\<close> sees from
  inside it. The result is the panic message or the path.\<close>

definition snapshotPath :: "world \<Rightarrow> string list \<Rightarrow> string \<Rightarrow> nat \<Rightarrow> string + string" where
  "snapshotPath w frames name callerSkip =
     (let base = snapshotBaseDir w in
      if base = [] then
        (case runtime_Caller frames callerSkip of
           None \<Rightarrow> Inl ''tuitestkit: cannot determine caller file for snapshot path''
         | Some file \<Rightarrow>
             Inr (filepath_Join
                    [filepath_Join [filepath_Dir file, ''testdata'', ''snapshots''],
                     name @ ''.golden'']))
      else Inr (filepath_Join [base, name @ ''.golden'']))"

text \<open>The three failure messages of \<^verbatim>\<open>snapshot\<close>'s compare branch and the two of its
  update branch.\<close>

definition msg_not_found :: "lib \<Rightarrow> string \<Rightarrow> string \<Rightarrow> string" where
  "msg_not_found L name path =
     ''snapshot '' @ Sprintf_q L name @ '': golden file not found at '' @ path
     @ ''\<newline>Run with UPDATE_SNAPSHOTS=1 to create it.''"

definition msg_cannot_read :: "lib \<Rightarrow> string \<Rightarrow> os_error \<Rightarrow> string" where
  "msg_cannot_read L name err =
     ''snapshot '' @ Sprintf_q L name @ '': cannot read golden file: '' @ Error err"

definition msg_mismatch :: "lib \<Rightarrow> string \<Rightarrow> string \<Rightarrow> string" where
  "msg_mismatch L name diff = ''snapshot '' @ Sprintf_q L name @ '' mismatch:\<newline>'' @ diff"

definition msg_cannot_mkdir :: "string \<Rightarrow> os_error \<Rightarrow> string" where
  "msg_cannot_mkdir dir err = ''snapshot: cannot create directory '' @ dir @ '': '' @ Error err"

definition msg_cannot_write :: "string \<Rightarrow> os_error \<Rightarrow> string" where
  "msg_cannot_write path err = ''snapshot: cannot write golden file '' @ path @ '': '' @ Error err"

text \<open>\<^verbatim>\<open>snapshot\<close>, the core shared by the four public functions.\<close>

definition snapshot ::
  "lib \<Rightarrow> world \<Rightarrow> string list \<Rightarrow> string \<Rightarrow> string \<Rightarrow> nat \<Rightarrow> outcome \<times> world" where
  "snapshot L w frames content name callerSkip =
     (case snapshotPath w frames name callerSkip of
        Inl p \<Rightarrow> (Panic p, w)
      | Inr path \<Rightarrow>
          if UpdateSnapshots w then
            (let dir = filepath_Dir path in
             case os_MkdirAll (disk w) dir of
               (Some err, d1) \<Rightarrow> (Fatalf (msg_cannot_mkdir dir err), w\<lparr>disk := d1\<rparr>)
             | (None, d1) \<Rightarrow>
                 (case os_WriteFile d1 path content of
                    (Some err, d2) \<Rightarrow> (Fatalf (msg_cannot_write path err), w\<lparr>disk := d2\<rparr>)
                  | (None, d2) \<Rightarrow> (Return, w\<lparr>disk := d2\<rparr>)))
          else
            (case os_ReadFile (disk w) path of
               Inl err \<Rightarrow>
                 if os_IsNotExist err then (Fatalf (msg_not_found L name path), w)
                 else (Fatalf (msg_cannot_read L name err), w)
             | Inr expected \<Rightarrow>
                 if expected = content then (Return, w)
                 else (Errorf (msg_mismatch L name (unifiedDiff expected content)), w)))"

text \<open>The interface value \<^verbatim>\<open>tea.Model\<close>, as far as the engine uses it: what its
  \<^verbatim>\<open>View\<close> method returns.\<close>

record tea_Model =
  View :: string

text \<open>The four public functions. Each one is called by the test, so from inside
  \<^verbatim>\<open>snapshotPath\<close> the test's file is three frames up.\<close>

definition SnapshotView ::
  "lib \<Rightarrow> world \<Rightarrow> string list \<Rightarrow> tea_Model \<Rightarrow> string \<Rightarrow> outcome \<times> world" where
  "SnapshotView L w frames model name =
     (let view = StripANSI L (View model) in snapshot L w frames view name 3)"

definition SnapshotViewRaw ::
  "lib \<Rightarrow> world \<Rightarrow> string list \<Rightarrow> tea_Model \<Rightarrow> string \<Rightarrow> outcome \<times> world" where
  "SnapshotViewRaw L w frames model name = snapshot L w frames (View model) name 3"

definition SnapshotStr ::
  "lib \<Rightarrow> world \<Rightarrow> string list \<Rightarrow> string \<Rightarrow> string \<Rightarrow> outcome \<times> world" where
  "SnapshotStr L w frames view name = snapshot L w frames (StripANSI L view) name 3"

definition SnapshotStrRaw ::
  "lib \<Rightarrow> world \<Rightarrow> string list \<Rightarrow> string \<Rightarrow> string \<Rightarrow> outcome \<times> world" where
  "SnapshotStrRaw L w frames view name = snapshot L w frames view name 3"


section \<open>Concrete values for evaluating the model\<close>

text \<open>\<^verbatim>\<open>strings.Contains\<close>.\<close>

fun has_prefix :: "string \<Rightarrow> string \<Rightarrow> bool" where
  "has_prefix s [] = True"
| "has_prefix [] (c # cs) = False"
| "has_prefix (x # xs) (c # cs) = (x = c \<and> has_prefix xs cs)"

fun strings_Contains :: "string \<Rightarrow> string \<Rightarrow> bool" where
  "strings_Contains [] sub = has_prefix [] sub"
| "strings_Contains (x # xs) sub = (has_prefix (x # xs) sub \<or> strings_Contains xs sub)"

text \<open>\<^verbatim>\<open>strconv.Quote\<close>, which is what \<^verbatim>\<open>%q\<close> prints, on ASCII text: the double quote
  and the backslash are escaped, the usual control characters have their letter, other
  control bytes are written in hexadecimal, and printable bytes stand for themselves.\<close>

definition quote_byte :: "char \<Rightarrow> string" where
  "quote_byte c =
     (if c = CHR 0x22 then [CHR 0x5C, CHR 0x22]
      else if c = CHR 0x5C then [CHR 0x5C, CHR 0x5C]
      else if c = CHR 0x07 then [CHR 0x5C, CHR ''a'']
      else if c = CHR 0x08 then [CHR 0x5C, CHR ''b'']
      else if c = CHR 0x0C then [CHR 0x5C, CHR ''f'']
      else if c = CHR 0x0A then [CHR 0x5C, CHR ''n'']
      else if c = CHR 0x0D then [CHR 0x5C, CHR ''r'']
      else if c = CHR 0x09 then [CHR 0x5C, CHR ''t'']
      else if c = CHR 0x0B then [CHR 0x5C, CHR ''v'']
      else if 0x20 \<le> (of_char c :: nat) \<and> (of_char c :: nat) \<le> 0x7E then [c]
      else [CHR 0x5C, CHR ''x'',
            ''0123456789abcdef'' ! ((of_char c :: nat) div 16),
            ''0123456789abcdef'' ! ((of_char c :: nat) mod 16)])"

definition quote_ascii :: "string \<Rightarrow> string" where
  "quote_ascii s = [CHR 0x22] @ concat (map quote_byte s) @ [CHR 0x22]"

text \<open>A library instance for text that is ASCII and has no escape sequences in it.\<close>

definition plain_lib :: lib where
  "plain_lib = \<lparr>Sprintf_q = quote_ascii, ansi_Strip = (\<lambda>s. s)\<rparr>"

text \<open>A disk with the directory \<^verbatim>\<open>/tmp/x\<close> and nothing in it, and the same disk with a
  baseline \<^verbatim>\<open>/tmp/x/n.golden\<close> that holds \<^verbatim>\<open>hello\<close>.\<close>

definition empty_disk :: filesys where
  "empty_disk = \<lparr>tree = [[''tmp''] \<mapsto> Directory, [''tmp'', ''x''] \<mapsto> Directory], cwd = []\<rparr>"

definition hello_disk :: filesys where
  "hello_disk =
     \<lparr>tree = [[''tmp''] \<mapsto> Directory, [''tmp'', ''x''] \<mapsto> Directory,
              [''tmp'', ''x'', ''n.golden''] \<mapsto> File ''hello''],
      cwd = []\<rparr>"

definition compare_world :: "filesys \<Rightarrow> world" where
  "compare_world d = \<lparr>UpdateSnapshots = False, snapshotBaseDir = ''/tmp/x'', disk = d\<rparr>"

definition update_world :: "filesys \<Rightarrow> world" where
  "update_world d = \<lparr>UpdateSnapshots = True, snapshotBaseDir = ''/tmp/x'', disk = d\<rparr>"


text \<open>The package as it starts without the environment variable, and a call stack whose
  frame 1 is a test file of the package \<^verbatim>\<open>/src/pkg\<close>.\<close>

definition default_world :: world where
  "default_world = \<lparr>UpdateSnapshots = False, snapshotBaseDir = [], disk = empty_disk\<rparr>"

definition test_frames :: "string list" where
  "test_frames = [''/src/pkg/snapshot.go'', ''/src/pkg/view_test.go'']"

text \<open>The disk \<^verbatim>\<open>empty_disk\<close> after the directories \<^verbatim>\<open>a\<close> and \<^verbatim>\<open>a/b\<close> were made
  below \<^verbatim>\<open>/tmp/x\<close>, and after a baseline was written there.\<close>

definition dirs_disk :: filesys where
  "dirs_disk =
     \<lparr>tree = [[''tmp''] \<mapsto> Directory, [''tmp'', ''x''] \<mapsto> Directory,
              [''tmp'', ''x'', ''a''] \<mapsto> Directory, [''tmp'', ''x'', ''a'', ''b''] \<mapsto> Directory],
      cwd = []\<rparr>"

definition nested_disk :: filesys where
  "nested_disk =
     \<lparr>tree = [[''tmp''] \<mapsto> Directory, [''tmp'', ''x''] \<mapsto> Directory,
              [''tmp'', ''x'', ''a''] \<mapsto> Directory, [''tmp'', ''x'', ''a'', ''b''] \<mapsto> Directory,
              [''tmp'', ''x'', ''a'', ''b'', ''c.golden''] \<mapsto> File ''hello''],
      cwd = []\<rparr>"



section \<open>The LCS table\<close>

lemma lcs_len_0 [simp]: "lcs_len a b i 0 = 0"
  by (cases i) simp_all

lemma table_filled_init:
  "table_filled a b (replicate (length a + 1) (replicate (length b + 1) 0)) 1 1"
  by (auto simp: table_filled_def simp del: replicate.simps)

lemma lcs_cell_value:
  assumes "1 \<le> i" "1 \<le> j"
  shows "lcs_len a b i j =
     (if a ! (i - 1) = b ! (j - 1) then lcs_len a b (i - 1) (j - 1) + 1
      else if lcs_len a b (i - 1) j \<ge> lcs_len a b i (j - 1) then lcs_len a b (i - 1) j
      else lcs_len a b i (j - 1))"
proof -
  from assms obtain i' j' where "i = Suc i'" "j = Suc j'"
    by (cases i; cases j) auto
  then show ?thesis by (simp add: max_def)
qed

lemma table_filled_step:
  assumes inv: "table_filled a b t i j" and i: "1 \<le> i" "i \<le> length a" and j: "1 \<le> j" "j \<le> length b"
  shows "table_filled a b (lcs_cell a b i j t) i (j + 1)"
proof -
  from inv have len: "length t = length a + 1"
    and rows: "\<And>r. r \<le> length a \<Longrightarrow> length (t ! r) = length b + 1"
    and cells: "\<And>p q. p \<le> length a \<Longrightarrow> q \<le> length b \<Longrightarrow> (p < i \<or> (p = i \<and> q < j) \<or> q = 0)
        \<Longrightarrow> t ! p ! q = lcs_len a b p q"
    by (auto simp: table_filled_def)
  define v where "v = lcs_len a b i j"
  have c1: "t ! (i - 1) ! (j - 1) = lcs_len a b (i - 1) (j - 1)" using i j by (intro cells) auto
  have c2: "t ! (i - 1) ! j = lcs_len a b (i - 1) j" using i j by (intro cells) auto
  have c3: "t ! i ! (j - 1) = lcs_len a b i (j - 1)" using i j by (intro cells) auto
  have cell: "lcs_cell a b i j t = t[i := (t ! i)[j := v]]"
    unfolding lcs_cell_def v_def c1 c2 c3 lcs_cell_value[OF i(1) j(1), of a b] by simp
  have ilt: "i < length t" using i len by simp
  have jlt: "j < length (t ! i)" using rows[of i] i j by simp
  show ?thesis
    unfolding table_filled_def cell
  proof (intro conjI allI impI)
    show "length (t[i := (t ! i)[j := v]]) = length a + 1" using len by simp
  next
    fix r assume "r \<le> length a"
    then show "length (t[i := (t ! i)[j := v]] ! r) = length b + 1"
      using rows[of r] ilt by (cases "r = i") auto
  next
    fix p q
    assume h: "p \<le> length a \<and> q \<le> length b \<and> (p < i \<or> p = i \<and> q < j + 1 \<or> q = 0)"
    show "t[i := (t ! i)[j := v]] ! p ! q = lcs_len a b p q"
    proof (cases "p = i \<and> q = j")
      case True
      then show ?thesis using ilt jlt by (simp add: v_def)
    next
      case False
      then have "t[i := (t ! i)[j := v]] ! p ! q = t ! p ! q"
        using ilt by (cases "p = i") auto
      moreover have "t ! p ! q = lcs_len a b p q"
        using h False by (intro cells) auto
      ultimately show ?thesis by simp
    qed
  qed
qed

lemma table_filled_row:
  assumes "table_filled a b t i 1" "1 \<le> i" "i \<le> length a" "k \<le> length b"
  shows "table_filled a b (fold (\<lambda>j t'. lcs_cell a b i j t') [1..<k + 1] t) i (k + 1)"
  using assms(4)
proof (induction k)
  case 0
  then show ?case using assms(1) by simp
next
  case (Suc k)
  then have ih: "table_filled a b (fold (\<lambda>j t'. lcs_cell a b i j t') [1..<k + 1] t) i (k + 1)"
    by simp
  have "table_filled a b (lcs_cell a b i (k + 1) (fold (\<lambda>j t'. lcs_cell a b i j t') [1..<k + 1] t)) i (k + 1 + 1)"
    using Suc.prems assms(2,3) by (intro table_filled_step[OF ih]) auto
  then show ?case by simp
qed

lemma table_filled_next_row:
  assumes "table_filled a b t i (length b + 1)"
  shows "table_filled a b t (i + 1) 1"
proof -
  from assms have len: "length t = length a + 1"
    and rows: "\<forall>r \<le> length a. length (t ! r) = length b + 1"
    and cells: "\<And>p q. p \<le> length a \<Longrightarrow> q \<le> length b \<Longrightarrow>
        (p < i \<or> (p = i \<and> q < length b + 1) \<or> q = 0) \<Longrightarrow> t ! p ! q = lcs_len a b p q"
    by (auto simp: table_filled_def)
  have "t ! p ! q = lcs_len a b p q"
    if "p \<le> length a \<and> q \<le> length b \<and> (p < i + 1 \<or> (p = i + 1 \<and> q < 1) \<or> q = 0)" for p q
    using that by (intro cells) auto
  then show ?thesis using len rows unfolding table_filled_def by blast
qed

lemma table_filled_rows:
  assumes "k \<le> length a"
  shows "table_filled a b
           (fold (\<lambda>i t. fold (\<lambda>j t'. lcs_cell a b i j t') [1..<length b + 1] t) [1..<k + 1]
              (replicate (length a + 1) (replicate (length b + 1) 0))) (k + 1) 1"
  using assms
proof (induction k)
  case 0
  then show ?case using table_filled_init[of a b] by simp
next
  case (Suc k)
  let ?t = "fold (\<lambda>i t. fold (\<lambda>j t'. lcs_cell a b i j t') [1..<length b + 1] t) [1..<k + 1]
              (replicate (length a + 1) (replicate (length b + 1) 0))"
  from Suc have ih: "table_filled a b ?t (k + 1) 1" by simp
  have "table_filled a b (fold (\<lambda>j t'. lcs_cell a b (k + 1) j t') [1..<length b + 1] ?t) (k + 1) (length b + 1)"
    using Suc.prems by (intro table_filled_row[OF ih]) auto
  then have "table_filled a b (fold (\<lambda>j t'. lcs_cell a b (k + 1) j t') [1..<length b + 1] ?t) (k + 1 + 1) 1"
    by (rule table_filled_next_row)
  then show ?case by simp
qed

lemma lcsTable_cell:
  assumes "i \<le> length a" "j \<le> length b"
  shows "lcsTable a b ! i ! j = lcs_len a b i j"
proof -
  have "table_filled a b (lcsTable a b) (length a + 1) 1"
    unfolding lcsTable_def Let_def by (rule table_filled_rows) simp
  then show ?thesis using assms by (auto simp: table_filled_def)
qed

text \<open>The recurrence computes what its name says: some common subsequence of the two
  prefixes has that length, and none is longer. So each cell of the table is the length
  of a longest common subsequence.\<close>

lemma subseq_of_singleton: "subseq s [x] \<Longrightarrow> s = [] \<or> s = [x]"
  by (cases s) (auto split: if_splits)

lemma subseq_snoc_other:
  assumes "subseq s (A @ [x])" "s = [] \<or> last s \<noteq> x"
  shows "subseq s A"
proof -
  from assms(1) obtain s1 s2 where s: "s = s1 @ s2" and s1: "subseq s1 A" and s2: "subseq s2 [x]"
    by (rule subseq_appendE)
  from s2 have "s2 = [] \<or> s2 = [x]" by (rule subseq_of_singleton)
  then show ?thesis using s s1 assms(2) by auto
qed

lemma subseq_snoc_same:
  assumes "subseq (s @ [x]) (A @ [x])"
  shows "subseq s A"
proof -
  from assms obtain s1 s2 where s: "s @ [x] = s1 @ s2" and s1: "subseq s1 A" and s2: "subseq s2 [x]"
    by (rule subseq_appendE)
  from s2 have "s2 = [] \<or> s2 = [x]" by (rule subseq_of_singleton)
  then show ?thesis
  proof
    assume "s2 = []"
    then have "subseq (s @ [x]) A" using s s1 by simp
    then show ?thesis using list_emb_appendD by blast
  next
    assume "s2 = [x]"
    then show ?thesis using s s1 by simp
  qed
qed

lemma lcs_len_common:
  "i \<le> length a \<Longrightarrow> j \<le> length b \<Longrightarrow>
   \<exists>s. subseq s (take i a) \<and> subseq s (take j b) \<and> length s = lcs_len a b i j"
proof (induction a b i j rule: lcs_len.induct)
  case (1 a b j)
  then show ?case by simp
next
  case (2 a b i)
  then show ?case by simp
next
  case (3 a b i j)
  then have i: "i < length a" and j: "j < length b" by simp_all
  have ta: "take (Suc i) a = take i a @ [a ! i]" using i by (simp add: take_Suc_conv_app_nth)
  have tb: "take (Suc j) b = take j b @ [b ! j]" using j by (simp add: take_Suc_conv_app_nth)
  show ?case
  proof (cases "a ! i = b ! j")
    case True
    from "3.IH"(1)[OF True] i j obtain s where "subseq s (take i a)" "subseq s (take j b)"
      "length s = lcs_len a b i j" by auto
    then have "subseq (s @ [a ! i]) (take (Suc i) a) \<and> subseq (s @ [a ! i]) (take (Suc j) b)
        \<and> length (s @ [a ! i]) = lcs_len a b (Suc i) (Suc j)"
      unfolding ta tb using True by simp
    then show ?thesis by blast
  next
    case False
    from "3.IH"(2)[OF False] i "3.prems"(2) obtain s1 where s1: "subseq s1 (take i a)"
      "subseq s1 (take (Suc j) b)" "length s1 = lcs_len a b i (Suc j)" by auto
    from "3.IH"(3)[OF False] "3.prems"(1) j obtain s2 where s2: "subseq s2 (take (Suc i) a)"
      "subseq s2 (take j b)" "length s2 = lcs_len a b (Suc i) j" by auto
    have a1: "subseq s1 (take (Suc i) a)" unfolding ta using s1(1) by (rule subseq_rev_drop_many)
    have b2: "subseq s2 (take (Suc j) b)" unfolding tb using s2(2) by (rule subseq_rev_drop_many)
    show ?thesis
    proof (cases "lcs_len a b i (Suc j) \<ge> lcs_len a b (Suc i) j")
      case True
      then have "length s1 = lcs_len a b (Suc i) (Suc j)" using False s1(3) by (simp add: max_def)
      then show ?thesis using a1 s1(2) by blast
    next
      case ge: False
      then have "length s2 = lcs_len a b (Suc i) (Suc j)" using False s2(3) by (simp add: max_def)
      then show ?thesis using s2(1) b2 by blast
    qed
  qed
qed

lemma lcs_len_longest:
  "i \<le> length a \<Longrightarrow> j \<le> length b \<Longrightarrow> subseq s (take i a) \<Longrightarrow> subseq s (take j b) \<Longrightarrow>
   length s \<le> lcs_len a b i j"
proof (induction a b i j arbitrary: s rule: lcs_len.induct)
  case (1 a b j)
  then show ?case by simp
next
  case (2 a b i)
  then show ?case by simp
next
  case (3 a b i j)
  then have i: "i < length a" and j: "j < length b" by simp_all
  have ta: "take (Suc i) a = take i a @ [a ! i]" using i by (simp add: take_Suc_conv_app_nth)
  have tb: "take (Suc j) b = take j b @ [b ! j]" using j by (simp add: take_Suc_conv_app_nth)
  note sa = "3.prems"(3)[unfolded ta] and sb = "3.prems"(4)[unfolded tb]
  show ?case
  proof (cases "a ! i = b ! j")
    case True
    show ?thesis
    proof (cases "s = [] \<or> last s \<noteq> a ! i")
      case other: True
      have "subseq s (take i a)" by (rule subseq_snoc_other[OF sa other])
      moreover have "subseq s (take j b)" using subseq_snoc_other[OF sb] other True by simp
      ultimately have "length s \<le> lcs_len a b i j" using "3.IH"(1)[OF True] i j by simp
      then show ?thesis using True by simp
    next
      case False
      then obtain s' where s: "s = s' @ [a ! i]" by (cases s rule: rev_cases) auto
      have "subseq s' (take i a)" using sa unfolding s by (rule subseq_snoc_same)
      moreover have "subseq s' (take j b)" using sb True unfolding s by (simp add: subseq_snoc_same)
      ultimately have "length s' \<le> lcs_len a b i j" using "3.IH"(1)[OF True] i j by simp
      then show ?thesis using True s by simp
    qed
  next
    case False
    show ?thesis
    proof (cases "s = [] \<or> last s \<noteq> a ! i")
      case True
      have "subseq s (take i a)" by (rule subseq_snoc_other[OF sa True])
      then have "length s \<le> lcs_len a b i (Suc j)"
        using "3.IH"(2)[OF False] i "3.prems"(2,4) by simp
      then show ?thesis using False by simp
    next
      case ends: False
      then have "s = [] \<or> last s \<noteq> b ! j" using False by simp
      then have "subseq s (take j b)" by (rule subseq_snoc_other[OF sb])
      then have "length s \<le> lcs_len a b (Suc i) j"
        using "3.IH"(3)[OF False] j "3.prems"(1,3) by simp
      then show ?thesis using False by simp
    qed
  qed
qed

lemma lcsTable_longest:
  assumes "i \<le> length a" "j \<le> length b"
  shows "(\<exists>s. subseq s (take i a) \<and> subseq s (take j b) \<and> length s = lcsTable a b ! i ! j)
       \<and> (\<forall>s. subseq s (take i a) \<and> subseq s (take j b) \<longrightarrow> length s \<le> lcsTable a b ! i ! j)"
  using assms lcs_len_common[of i a j b] lcs_len_longest[of i a j b]
  by (simp add: lcsTable_cell)

section \<open>The diff\<close>

text \<open>
  C5. One step of the backtracking loop, at any position inside the two line sequences,
  with the table that \<^verbatim>\<open>lcsTable\<close> builds. At the origin the loop stops. When both
  indices are positive and the two current lines are equal, a context line is appended
  and both indices go down by one. Otherwise an addition (the candidate's line, with the
  candidate's index going down) is appended exactly when a candidate line is left and
  either no baseline line is left or the LCS length of the cell that consumes the
  candidate line is greater than or equal to that of the cell that consumes the baseline
  line; in every other case a removal is appended and the baseline's index goes down.
  The loop is a function of its arguments, and \<^verbatim>\<open>unifiedDiff\<close> of its two inputs.
\<close>

theorem backtrack_step:
  assumes "i \<le> length expLines" and "j \<le> length actLines"
  shows "diff_loop expLines actLines (lcsTable expLines actLines) i j lines =
     (if i = 0 \<and> j = 0 then lines
      else if 0 < i \<and> 0 < j \<and> expLines ! (i - 1) = actLines ! (j - 1)
      then diff_loop expLines actLines (lcsTable expLines actLines) (i - 1) (j - 1)
             (lines @ ['' '' @ Sprintf_4d i @ ''  '' @ expLines ! (i - 1)])
      else if 0 < j \<and> (i = 0 \<or> lcs_len expLines actLines i (j - 1) \<ge> lcs_len expLines actLines (i - 1) j)
      then diff_loop expLines actLines (lcsTable expLines actLines) i (j - 1)
             (lines @ [''+'' @ Sprintf_4d j @ ''  '' @ actLines ! (j - 1)])
      else diff_loop expLines actLines (lcsTable expLines actLines) (i - 1) j
             (lines @ [''-'' @ Sprintf_4d i @ ''  '' @ expLines ! (i - 1)]))"
proof -
  let ?T = "lcsTable expLines actLines"
  have unfold: "diff_loop expLines actLines ?T i j lines =
     (if i > 0 \<or> j > 0 then
        (if i > 0 \<and> j > 0 \<and> expLines ! (i - 1) = actLines ! (j - 1)
         then diff_loop expLines actLines ?T (i - 1) (j - 1)
                (lines @ [context_line i (expLines ! (i - 1))])
         else if j > 0 \<and> (i = 0 \<or> ?T ! i ! (j - 1) \<ge> ?T ! (i - 1) ! j)
         then diff_loop expLines actLines ?T i (j - 1)
                (lines @ [addition_line j (actLines ! (j - 1))])
         else diff_loop expLines actLines ?T (i - 1) j
                (lines @ [removal_line i (expLines ! (i - 1))]))
      else lines)"
    by (rule diff_loop.simps)
  show ?thesis
  proof (cases "0 < i \<and> 0 < j")
    case True
    then have "?T ! i ! (j - 1) = lcs_len expLines actLines i (j - 1)"
      and "?T ! (i - 1) ! j = lcs_len expLines actLines (i - 1) j"
      using assms by (simp_all add: lcsTable_cell)
    then show ?thesis
      unfolding unfold context_line_def addition_line_def removal_line_def
      using True by simp
  next
    case False
    then show ?thesis
      unfolding unfold context_line_def addition_line_def removal_line_def
      by auto
  qed
qed

theorem backtrack_step_witness:
  "2 \<le> length [''a'', ''b'', ''c''] \<and> 2 \<le> length [''a'', ''X'', ''c'']
   \<and> diff_loop [''a'', ''b'', ''c''] [''a'', ''X'', ''c'']
        (lcsTable [''a'', ''b'', ''c''] [''a'', ''X'', ''c'']) 2 2 []
      = diff_loop [''a'', ''b'', ''c''] [''a'', ''X'', ''c'']
        (lcsTable [''a'', ''b'', ''c''] [''a'', ''X'', ''c'']) 2 1 [''+   2  X'']"
proof -
  have a: "2 \<le> length [''a'', ''b'', ''c'']" and b: "2 \<le> length [''a'', ''X'', ''c'']" by simp_all
  have l1: "lcs_len [''a'', ''b'', ''c''] [''a'', ''X'', ''c''] 2 1 = 1" by code_simp
  have l2: "lcs_len [''a'', ''b'', ''c''] [''a'', ''X'', ''c''] 1 2 = 1" by code_simp
  have s: "Sprintf_4d 2 = ''   2''" by code_simp
  show ?thesis
    using backtrack_step[OF a b, of "[]"] l1 l2 s by simp
qed

lemma diff_loop_lines:
  assumes ctx: "\<And>k. 1 \<le> k \<Longrightarrow> k \<le> length e \<Longrightarrow> P (context_line k (e ! (k - 1)))"
    and rem: "\<And>k. 1 \<le> k \<Longrightarrow> k \<le> length e \<Longrightarrow> P (removal_line k (e ! (k - 1)))"
    and add: "\<And>k. 1 \<le> k \<Longrightarrow> k \<le> length a \<Longrightarrow> P (addition_line k (a ! (k - 1)))"
  shows "i \<le> length e \<Longrightarrow> j \<le> length a \<Longrightarrow> \<forall>l \<in> set lines. P l \<Longrightarrow>
         \<forall>l \<in> set (diff_loop e a lcs i j lines). P l"
proof (induction "i + j" arbitrary: i j lines rule: less_induct)
  case less
  let ?match = "0 < i \<and> 0 < j \<and> e ! (i - 1) = a ! (j - 1)"
  let ?plus = "0 < j \<and> (i = 0 \<or> lcs ! i ! (j - 1) \<ge> lcs ! (i - 1) ! j)"
  consider (stop) "i = 0" "j = 0" | (same) ?match | (addition) "\<not> ?match" ?plus
    | (removal) "\<not> ?match" "\<not> ?plus" "0 < i"
    by fastforce
  then show ?case
  proof cases
    case stop
    then have "diff_loop e a lcs i j lines = lines" by (subst diff_loop.simps) simp
    then show ?thesis using less.prems(3) by simp
  next
    case same
    then have eq: "diff_loop e a lcs i j lines
        = diff_loop e a lcs (i - 1) (j - 1) (lines @ [context_line i (e ! (i - 1))])"
      by (subst diff_loop.simps) simp
    from same have i: "1 \<le> i" and j: "1 \<le> j" by simp_all
    have "P (context_line i (e ! (i - 1)))" by (rule ctx[OF i less.prems(1)])
    then have all: "\<forall>l \<in> set (lines @ [context_line i (e ! (i - 1))]). P l"
      using less.prems(3) by simp
    have "\<forall>l \<in> set (diff_loop e a lcs (i - 1) (j - 1) (lines @ [context_line i (e ! (i - 1))])). P l"
      using i j less.prems(1,2) by (intro less.hyps all) simp_all
    then show ?thesis by (simp only: eq)
  next
    case addition
    then have eq: "diff_loop e a lcs i j lines
        = diff_loop e a lcs i (j - 1) (lines @ [addition_line j (a ! (j - 1))])"
      by (subst diff_loop.simps) auto
    from addition have j: "1 \<le> j" by simp
    have "P (addition_line j (a ! (j - 1)))" by (rule add[OF j less.prems(2)])
    then have all: "\<forall>l \<in> set (lines @ [addition_line j (a ! (j - 1))]). P l"
      using less.prems(3) by simp
    have "\<forall>l \<in> set (diff_loop e a lcs i (j - 1) (lines @ [addition_line j (a ! (j - 1))])). P l"
      using j less.prems(1,2) by (intro less.hyps all) simp_all
    then show ?thesis by (simp only: eq)
  next
    case removal
    then have eq: "diff_loop e a lcs i j lines
        = diff_loop e a lcs (i - 1) j (lines @ [removal_line i (e ! (i - 1))])"
      by (subst diff_loop.simps) auto
    from removal have i: "1 \<le> i" by simp
    have "P (removal_line i (e ! (i - 1)))" by (rule rem[OF i less.prems(1)])
    then have all: "\<forall>l \<in> set (lines @ [removal_line i (e ! (i - 1))]). P l"
      using less.prems(3) by simp
    have "\<forall>l \<in> set (diff_loop e a lcs (i - 1) j (lines @ [removal_line i (e ! (i - 1))])). P l"
      using i less.prems(1,2) by (intro less.hyps all) simp_all
    then show ?thesis by (simp only: eq)
  qed
qed

text \<open>
  C6. The diff is the two header lines followed by the body lines, each ended by a
  newline. Every body line is a marker, the line number in a field of four, two spaces
  and the text of a line: a space or \<^verbatim>\<open>-\<close> with a 1-based position in the baseline and
  the baseline's line at that position, or \<^verbatim>\<open>+\<close> with a 1-based position in the
  candidate and the candidate's line at that position. For the baseline \<^verbatim>\<open>a, b, c\<close> and
  the candidate \<^verbatim>\<open>a, X, c\<close> the diff removes \<^verbatim>\<open>b\<close> at 2, adds \<^verbatim>\<open>X\<close> at 2, and keeps
  \<^verbatim>\<open>a\<close> and \<^verbatim>\<open>c\<close> as context.
\<close>

theorem diff_line_format:
  "(\<exists>body.
      unifiedDiff expected actual
        = ''--- expected\<newline>+++ actual\<newline>'' @ concat (map (\<lambda>l. l @ ''\<newline>'') body)
      \<and> (\<forall>l \<in> set body.
            (\<exists>i. 1 \<le> i \<and> i \<le> length (split_on newline expected)
                  \<and> (l = '' '' @ Sprintf_4d i @ ''  '' @ split_on newline expected ! (i - 1)
                     \<or> l = ''-'' @ Sprintf_4d i @ ''  '' @ split_on newline expected ! (i - 1)))
          \<or> (\<exists>j. 1 \<le> j \<and> j \<le> length (split_on newline actual)
                  \<and> l = ''+'' @ Sprintf_4d j @ ''  '' @ split_on newline actual ! (j - 1))))
   \<and> unifiedDiff ''a\<newline>b\<newline>c'' ''a\<newline>X\<newline>c''
       = ''--- expected\<newline>+++ actual\<newline>    1  a\<newline>-   2  b\<newline>+   2  X\<newline>    3  c\<newline>''"
proof
  let ?e = "split_on newline expected" and ?a = "split_on newline actual"
  let ?P = "\<lambda>l. (\<exists>i. 1 \<le> i \<and> i \<le> length ?e
                  \<and> (l = '' '' @ Sprintf_4d i @ ''  '' @ ?e ! (i - 1)
                     \<or> l = ''-'' @ Sprintf_4d i @ ''  '' @ ?e ! (i - 1)))
          \<or> (\<exists>j. 1 \<le> j \<and> j \<le> length ?a
                  \<and> l = ''+'' @ Sprintf_4d j @ ''  '' @ ?a ! (j - 1))"
  let ?lines = "diff_loop ?e ?a (lcsTable ?e ?a) (length ?e) (length ?a) []"
  have "\<forall>l \<in> set ?lines. ?P l"
  proof (rule diff_loop_lines)
    fix k assume "1 \<le> k" "k \<le> length ?e"
    then show "?P (context_line k (?e ! (k - 1)))" unfolding context_line_def by blast
  next
    fix k assume "1 \<le> k" "k \<le> length ?e"
    then show "?P (removal_line k (?e ! (k - 1)))" unfolding removal_line_def by blast
  next
    fix k assume "1 \<le> k" "k \<le> length ?a"
    then show "?P (addition_line k (?a ! (k - 1)))" unfolding addition_line_def by blast
  qed simp_all
  then have "\<forall>l \<in> set (rev ?lines). ?P l" by simp
  moreover have "unifiedDiff expected actual
        = ''--- expected\<newline>+++ actual\<newline>'' @ concat (map (\<lambda>l. l @ ''\<newline>'') (rev ?lines))"
    by (simp add: unifiedDiff_def Let_def newline_def)
  ultimately show "\<exists>body.
      unifiedDiff expected actual
        = ''--- expected\<newline>+++ actual\<newline>'' @ concat (map (\<lambda>l. l @ ''\<newline>'') body)
      \<and> (\<forall>l \<in> set body. ?P l)"
    by blast
next
  show "unifiedDiff ''a\<newline>b\<newline>c'' ''a\<newline>X\<newline>c''
       = ''--- expected\<newline>+++ actual\<newline>    1  a\<newline>-   2  b\<newline>+   2  X\<newline>    3  c\<newline>''"
    by code_simp
qed

theorem diff_line_format_witness:
  "\<exists>body.
      unifiedDiff ''x'' ''y''
        = ''--- expected\<newline>+++ actual\<newline>'' @ concat (map (\<lambda>l. l @ ''\<newline>'') body)
      \<and> (\<forall>l \<in> set body.
            (\<exists>i. 1 \<le> i \<and> i \<le> length (split_on newline ''x'')
                  \<and> (l = '' '' @ Sprintf_4d i @ ''  '' @ split_on newline ''x'' ! (i - 1)
                     \<or> l = ''-'' @ Sprintf_4d i @ ''  '' @ split_on newline ''x'' ! (i - 1)))
          \<or> (\<exists>j. 1 \<le> j \<and> j \<le> length (split_on newline ''y'')
                  \<and> l = ''+'' @ Sprintf_4d j @ ''  '' @ split_on newline ''y'' ! (j - 1)))"
  using diff_line_format[of "''x''" "''y''"] by (rule conjunct1)

section \<open>Paths\<close>

lemma split_on_no_sep: "sep \<notin> set ys \<Longrightarrow> split_on sep ys = [ys]"
  by (induction ys) auto

lemma split_on_not_Nil: "split_on sep xs \<noteq> []"
  by (induction xs) (auto split: list.splits)

lemma split_on_last_piece:
  "sep \<notin> set ys \<Longrightarrow> split_on sep (xs @ sep # ys) = split_on sep xs @ [ys]"
proof (induction xs)
  case Nil
  then show ?case by (simp add: split_on_no_sep)
next
  case (Cons x xs)
  then show ?case using split_on_not_Nil[of sep xs]
    by (cases "split_on sep xs") auto
qed

lemma strings_Join_snoc:
  "strings_Join (xs @ [l]) sep = (if xs = [] then l else strings_Join xs sep @ sep @ l)"
  by (induction xs sep rule: strings_Join.induct) auto

lemma golden_is_a_name:
  "name @ ''.golden'' \<noteq> []" "name @ ''.golden'' \<noteq> ''.''" "name @ ''.golden'' \<noteq> ''..''"
proof -
  show "name @ ''.golden'' \<noteq> []" by simp
  show "name @ ''.golden'' \<noteq> ''.''"
  proof
    assume "name @ ''.golden'' = ''.''"
    then have "length (name @ ''.golden'') = length ''.''" by (rule arg_cong)
    then show False by simp
  qed
  show "name @ ''.golden'' \<noteq> ''..''"
  proof
    assume "name @ ''.golden'' = ''..''"
    then have "length (name @ ''.golden'') = length ''..''" by (rule arg_cong)
    then show False by simp
  qed
qed

lemma Clean_one_name:
  assumes "CHR ''/'' \<notin> set n" "n \<noteq> []" "n \<noteq> ''.''" "n \<noteq> ''..''"
  shows "filepath_Clean n = n"
proof -
  have "hd n \<noteq> CHR ''/''" using assms(1,2) by (cases n) auto
  then show ?thesis using assms
    by (simp add: filepath_Clean_def split_on_no_sep clean_step_def)
qed

lemma Clean_last_name:
  assumes "CHR ''/'' \<notin> set n" "n \<noteq> []" "n \<noteq> ''.''" "n \<noteq> ''..''" "b \<noteq> []"
  shows "\<exists>pre. filepath_Clean (b @ ''/'' @ n) = pre @ n \<and> (pre = [] \<or> last pre = CHR ''/'')"
proof -
  define p where "p = b @ CHR ''/'' # n"
  define r where "r = (hd p = CHR ''/'')"
  define st where "st = foldl (clean_step r) [] (split_on (CHR ''/'') b)"
  define root where "root = (if r then ''/'' else [])"
  have pne: "p \<noteq> []" by (simp add: p_def)
  have sp: "split_on (CHR ''/'') p = split_on (CHR ''/'') b @ [n]"
    unfolding p_def by (rule split_on_last_piece[OF assms(1)])
  have "clean_step r st n = n # st" using assms(2-4) by (simp add: clean_step_def)
  then have st: "foldl (clean_step r) [] (split_on (CHR ''/'') p) = n # st"
    by (simp add: sp st_def)
  have "filepath_Clean p =
      (if r then ''/'' @ strings_Join (rev (n # st)) ''/''
       else if rev (n # st) = [] then ''.'' else strings_Join (rev (n # st)) ''/'')"
    using pne unfolding filepath_Clean_def Let_def r_def[symmetric] st by (simp only: if_False)
  then have cl: "filepath_Clean p = root @ strings_Join (rev st @ [n]) ''/''"
    by (simp add: root_def)
  have root: "root = [] \<or> last root = CHR ''/''" by (simp add: root_def)
  show ?thesis
  proof (cases "rev st = []")
    case True
    then have "filepath_Clean p = root @ n" unfolding cl strings_Join_snoc by simp
    then show ?thesis using root unfolding p_def by (intro exI[of _ root]) simp
  next
    case False
    then have "filepath_Clean p = (root @ strings_Join (rev st) ''/'' @ ''/'') @ n"
      unfolding cl strings_Join_snoc by simp
    then show ?thesis unfolding p_def
      by (intro exI[of _ "root @ strings_Join (rev st) ''/'' @ ''/''"]) simp
  qed
qed

lemma Join_last_name:
  assumes "CHR ''/'' \<notin> set n" "n \<noteq> []" "n \<noteq> ''.''" "n \<noteq> ''..''"
  shows "\<exists>pre. filepath_Join [b, n] = pre @ n \<and> (pre = [] \<or> last pre = CHR ''/'')"
proof (cases "b = []")
  case True
  then have "filepath_Join [b, n] = n" using assms by (simp add: filepath_Join_def Clean_one_name)
  then show ?thesis by simp
next
  case False
  then have "filepath_Join [b, n] = filepath_Clean (b @ ''/'' @ n)"
    by (simp add: filepath_Join_def)
  then show ?thesis using Clean_last_name[OF assms False] by simp
qed

lemma split_on_pieces: "\<forall>x \<in> set (split_on sep xs). sep \<notin> set x"
  by (induction xs) (auto split: list.splits)

lemma clean_step_normal:
  assumes "normal_stack r st" "CHR ''/'' \<notin> set c"
  shows "normal_stack r (clean_step r st c)"
  using assms by (cases st) (auto simp: clean_step_def)

lemma clean_fold_normal:
  assumes "normal_stack r st" "\<forall>c \<in> set cs. CHR ''/'' \<notin> set c"
  shows "normal_stack r (foldl (clean_step r) st cs)"
  using assms by (induction cs arbitrary: st) (simp_all add: clean_step_normal)

lemma clean_step_push:
  assumes "normal_stack r (e # st)"
  shows "clean_step r st e = e # st"
proof (cases "e = ''..''")
  case False
  moreover from assms have "e \<noteq> []" "e \<noteq> ''.''" by simp_all
  ultimately show ?thesis by (simp add: clean_step_def)
next
  case True
  with assms have nr: "\<not> r" and dd: "\<forall>x \<in> set st. x = ''..''" by simp_all
  show ?thesis
  proof (cases st)
    case Nil
    then show ?thesis using nr by (simp add: clean_step_def True)
  next
    case (Cons x xs)
    then have "x = ''..''" using dd by simp
    then show ?thesis by (simp add: clean_step_def True Cons)
  qed
qed

lemma clean_fixed: "normal_stack r st \<Longrightarrow> foldl (clean_step r) [] (rev st) = st"
proof (induction st)
  case Nil
  then show ?case by simp
next
  case (Cons e st)
  then have "foldl (clean_step r) [] (rev st) = st" by simp
  then show ?case using clean_step_push[OF Cons.prems] by simp
qed

lemma normal_stack_elems:
  "normal_stack r st \<Longrightarrow> \<forall>e \<in> set st. e \<noteq> [] \<and> CHR ''/'' \<notin> set e"
  by (induction st) auto

lemma split_join:
  assumes "E \<noteq> []" "\<forall>e \<in> set E. CHR ''/'' \<notin> set e"
  shows "split_on (CHR ''/'') (strings_Join E ''/'') = E"
  using assms
proof (induction E "''/''" rule: strings_Join.induct)
  case 1
  then show ?case by simp
next
  case (2 x)
  then show ?case by (simp add: split_on_no_sep)
next
  case (3 x y ys)
  then have ih: "split_on (CHR ''/'') (strings_Join (y # ys) ''/'') = y # ys" by simp
  have x: "CHR ''/'' \<notin> set x" using 3 by simp
  have "split_on (CHR ''/'') (x @ CHR ''/'' # strings_Join (y # ys) ''/'')
        = x # split_on (CHR ''/'') (strings_Join (y # ys) ''/'')"
    using x by (induction x) (auto simp: ih)
  then show ?case by (simp add: ih)
qed

lemma strings_Join_hd:
  assumes "E \<noteq> []" "hd E \<noteq> []"
  shows "strings_Join E sep \<noteq> [] \<and> hd (strings_Join E sep) = hd (hd E)"
  using assms by (induction E sep rule: strings_Join.induct) auto


lemma Clean_shape:
  assumes "CHR ''/'' \<notin> set n" "n \<noteq> []" "n \<noteq> ''.''" "n \<noteq> ''..''"
  shows "\<exists>r E. normal_stack r (rev E)
           \<and> filepath_Clean (b @ CHR ''/'' # n)
               = (if r then ''/'' else []) @ strings_Join (E @ [n]) ''/''"
proof -
  define p where "p = b @ CHR ''/'' # n"
  define r where "r = (hd p = CHR ''/'')"
  define st where "st = foldl (clean_step r) [] (split_on (CHR ''/'') b)"
  have pne: "p \<noteq> []" by (simp add: p_def)
  have sp: "split_on (CHR ''/'') p = split_on (CHR ''/'') b @ [n]"
    unfolding p_def by (rule split_on_last_piece[OF assms(1)])
  have "clean_step r st n = n # st" using assms(2-4) by (simp add: clean_step_def)
  then have st: "foldl (clean_step r) [] (split_on (CHR ''/'') p) = n # st"
    by (simp add: sp st_def)
  have "filepath_Clean p =
      (if r then ''/'' @ strings_Join (rev (n # st)) ''/''
       else if rev (n # st) = [] then ''.'' else strings_Join (rev (n # st)) ''/'')"
    using pne unfolding filepath_Clean_def Let_def r_def[symmetric] st by (simp only: if_False)
  then have cl: "filepath_Clean p = (if r then ''/'' else []) @ strings_Join (rev st @ [n]) ''/''"
    by simp
  have "normal_stack r st"
    unfolding st_def by (rule clean_fold_normal) (simp_all add: split_on_pieces)
  then have "normal_stack r (rev (rev st))
      \<and> filepath_Clean p = (if r then ''/'' else []) @ strings_Join (rev st @ [n]) ''/''"
    using cl by simp
  then show ?thesis unfolding p_def by blast
qed

text \<open>Every path that \<^verbatim>\<open>snapshotPath\<close> returns is clean and ends in an element
  \<^verbatim>\<open>y.golden\<close>.\<close>

lemma snapshotPath_shape:
  assumes "snapshotPath w frames name callerSkip = Inr path"
  shows "\<exists>r E n. normal_stack r (rev E) \<and> CHR ''/'' \<notin> set n \<and> n \<noteq> [] \<and> n \<noteq> ''.'' \<and> n \<noteq> ''..''
           \<and> path = (if r then ''/'' else []) @ strings_Join (E @ [n]) ''/''"
proof -
  from assms obtain b where pj: "path = filepath_Join [b, name @ ''.golden'']"
    by (auto simp: snapshotPath_def Let_def split: if_splits option.splits)
  have "\<exists>c n. CHR ''/'' \<notin> set n \<and> n \<noteq> [] \<and> n \<noteq> ''.'' \<and> n \<noteq> ''..''
          \<and> (path = filepath_Clean n \<or> path = filepath_Clean (c @ CHR ''/'' # n))"
  proof (cases "CHR ''/'' \<in> set name")
    case False
    then have n: "CHR ''/'' \<notin> set (name @ ''.golden'')" by simp
    have "path = filepath_Clean (name @ ''.golden'')
        \<or> path = filepath_Clean (b @ CHR ''/'' # (name @ ''.golden''))"
      unfolding pj by (cases "b = []") (simp_all add: filepath_Join_def)
    then show ?thesis using n golden_is_a_name[of name] by blast
  next
    case True
    then obtain x y where xy: "name = x @ CHR ''/'' # y" and y: "CHR ''/'' \<notin> set y"
      using split_list_last[of "CHR ''/''" name] by blast
    have n: "CHR ''/'' \<notin> set (y @ ''.golden'')" using y by simp
    have "path = filepath_Clean (x @ CHR ''/'' # (y @ ''.golden''))
        \<or> path = filepath_Clean ((b @ CHR ''/'' # x) @ CHR ''/'' # (y @ ''.golden''))"
      unfolding pj xy by (cases "b = []") (simp_all add: filepath_Join_def)
    then show ?thesis using n golden_is_a_name[of y] by blast
  qed
  then obtain c n where n: "CHR ''/'' \<notin> set n" "n \<noteq> []" "n \<noteq> ''.''" "n \<noteq> ''..''"
    and p: "path = filepath_Clean n \<or> path = filepath_Clean (c @ CHR ''/'' # n)"
    by blast
  from p show ?thesis
  proof
    assume "path = filepath_Clean n"
    then have "path = n" using Clean_one_name[OF n] by simp
    then have "normal_stack False (rev []) \<and> path = (if False then ''/'' else []) @ strings_Join ([] @ [n]) ''/''"
      by simp
    then show ?thesis using n by blast
  next
    assume "path = filepath_Clean (c @ CHR ''/'' # n)"
    then show ?thesis using Clean_shape[OF n, of c] n by blast
  qed
qed

lemma walk_step_empty [simp]: "walk_step key [] = key"
  by (simp add: walk_step_def)

lemma abs_key_render:
  assumes "F \<noteq> []" "\<forall>e \<in> set F. CHR ''/'' \<notin> set e" "hd F \<noteq> []"
  shows "abs_key wd ((if r then ''/'' else []) @ strings_Join F ''/'')
         = foldl walk_step (if r then [] else wd) F"
proof -
  have sj: "split_on (CHR ''/'') (strings_Join F ''/'') = F" by (rule split_join[OF assms(1,2)])
  have ne: "strings_Join F ''/'' \<noteq> []" and h: "hd (strings_Join F ''/'') = hd (hd F)"
    using strings_Join_hd[OF assms(1,3)] by simp_all
  have "hd (hd F) \<in> set (hd F)" using assms(3) by simp
  moreover have "hd F \<in> set F" using assms(1) by simp
  ultimately have "hd (hd F) \<noteq> CHR ''/''" using assms(2) by metis
  then have nr: "hd (strings_Join F ''/'') \<noteq> CHR ''/''" using h by simp
  show ?thesis
  proof (cases r)
    case True
    then show ?thesis by (simp add: abs_key_def sj)
  next
    case False
    then show ?thesis using ne nr by (simp add: abs_key_def sj)
  qed
qed

lemma strip_last_name:
  assumes "CHR ''/'' \<notin> set n"
  shows "rev (dropWhile (\<lambda>c. c \<noteq> CHR ''/'') (rev (xs @ n)))
         = rev (dropWhile (\<lambda>c. c \<noteq> CHR ''/'') (rev xs))"
proof -
  have "dropWhile (\<lambda>c. c \<noteq> CHR ''/'') (rev n @ rev xs) = dropWhile (\<lambda>c. c \<noteq> CHR ''/'') (rev xs)"
    using assms by (intro dropWhile_append2) auto
  then show ?thesis by simp
qed

lemma Clean_root: "filepath_Clean ''/'' = ''/''" "filepath_Clean [] = ''.''"
  by (simp_all add: filepath_Clean_def clean_step_def)

lemma abs_key_root: "abs_key wd ''/'' = []" "abs_key wd ''.'' = wd"
  by (simp_all add: abs_key_def walk_step_def)

lemma Clean_trailing_slash:
  assumes ns: "normal_stack r (rev E)" and ne: "E \<noteq> []"
  shows "filepath_Clean ((if r then ''/'' else []) @ strings_Join E ''/'' @ ''/'')
         = (if r then ''/'' else []) @ strings_Join E ''/''"
proof -
  define q where "q = (if r then ''/'' else []) @ strings_Join E ''/'' @ ''/''"
  have el: "\<forall>e \<in> set E. e \<noteq> [] \<and> CHR ''/'' \<notin> set e"
    using normal_stack_elems[OF ns] by simp
  then have nosl: "\<forall>e \<in> set E. CHR ''/'' \<notin> set e" by blast
  have hdE: "hd E \<noteq> []" using el ne by (cases E) auto
  have sj: "split_on (CHR ''/'') (strings_Join E ''/'') = E" by (rule split_join[OF ne nosl])
  have jne: "strings_Join E ''/'' \<noteq> []" and h: "hd (strings_Join E ''/'') = hd (hd E)"
    using strings_Join_hd[OF ne hdE] by simp_all
  have "hd (hd E) \<in> set (hd E)" using hdE by simp
  moreover have "hd E \<in> set E" using ne by simp
  ultimately have "hd (hd E) \<noteq> CHR ''/''" using nosl by metis
  then have nr: "hd (strings_Join E ''/'') \<noteq> CHR ''/''" using h by simp
  have qne: "q \<noteq> []" by (simp add: q_def)
  have hq: "(hd q = CHR ''/'') = r" using jne nr by (simp add: q_def)
  have "split_on (CHR ''/'') (strings_Join E ''/'' @ CHR ''/'' # []) = E @ [[]]"
    using split_on_last_piece[of "CHR ''/''" "[]" "strings_Join E ''/''"] sj by simp
  then have sq: "split_on (CHR ''/'') q = (if r then [[]] else []) @ E @ [[]]"
    by (simp add: q_def)
  have skip: "\<And>r st. clean_step r st [] = st" by (simp add: clean_step_def)
  have "foldl (clean_step r) [] (split_on (CHR ''/'') q) = foldl (clean_step r) [] E"
    unfolding sq by (simp add: skip)
  also have "\<dots> = rev E" using clean_fixed[OF ns] by simp
  finally have f: "foldl (clean_step r) [] (split_on (CHR ''/'') q) = rev E" .
  have "filepath_Clean q =
      (if r then ''/'' @ strings_Join (rev (rev E)) ''/''
       else if rev (rev E) = [] then ''.'' else strings_Join (rev (rev E)) ''/'')"
    using qne unfolding filepath_Clean_def Let_def hq f by (simp only: if_False)
  then have "filepath_Clean q = (if r then ''/'' else []) @ strings_Join E ''/''"
    using ne by simp
  then show ?thesis by (simp only: q_def)
qed

lemma Dir_of_shape:
  assumes ns: "normal_stack r (rev E)"
    and n: "CHR ''/'' \<notin> set n" "n \<noteq> []" "n \<noteq> ''.''" "n \<noteq> ''..''"
    and p: "path = (if r then ''/'' else []) @ strings_Join (E @ [n]) ''/''"
  shows "filepath_Dir path \<noteq> []
       \<and> abs_key wd (filepath_Dir path) = butlast (abs_key wd path)"
proof -
  define root where "root = (if r then ''/'' else [])"
  define start where "start = (if r then [] else wd)"
  have el: "\<forall>e \<in> set E. e \<noteq> [] \<and> CHR ''/'' \<notin> set e"
    using normal_stack_elems[OF ns] by simp
  have F: "E @ [n] \<noteq> []" "\<forall>e \<in> set (E @ [n]). CHR ''/'' \<notin> set e" "hd (E @ [n]) \<noteq> []"
    using el n by (auto simp: hd_append)
  have "abs_key wd path = foldl walk_step start (E @ [n])"
    unfolding p start_def by (rule abs_key_render[OF F])
  also have "\<dots> = foldl walk_step start E @ [n]"
    using n by (simp add: walk_step_def)
  finally have key: "abs_key wd path = foldl walk_step start E @ [n]" .
  show ?thesis
  proof (cases "E = []")
    case True
    then have "path = root @ n" by (simp add: p root_def)
    then have "filepath_Dir path
        = filepath_Clean (rev (dropWhile (\<lambda>c. c \<noteq> CHR ''/'') (rev root)))"
      by (simp only: filepath_Dir_def strip_last_name[OF n(1)])
    then have d: "filepath_Dir path = (if r then ''/'' else ''.'')"
      by (simp add: root_def Clean_root)
    then have "abs_key wd (filepath_Dir path) = start"
      by (simp add: start_def abs_key_root)
    then show ?thesis using key True d by simp
  next
    case False
    then have "path = (root @ strings_Join E ''/'' @ ''/'') @ n"
      by (simp add: p root_def strings_Join_snoc)
    then have "filepath_Dir path
        = filepath_Clean (rev (dropWhile (\<lambda>c. c \<noteq> CHR ''/'') (rev (root @ strings_Join E ''/'' @ ''/''))))"
      by (simp only: filepath_Dir_def strip_last_name[OF n(1)])
    also have "\<dots> = filepath_Clean (root @ strings_Join E ''/'' @ ''/'')" by simp
    also have "\<dots> = root @ strings_Join E ''/''"
      unfolding root_def by (rule Clean_trailing_slash[OF ns False])
    finally have d: "filepath_Dir path = root @ strings_Join E ''/''" .
    have "hd E \<noteq> []" using el False by (cases E) auto
    then have jne: "strings_Join E ''/'' \<noteq> []" using strings_Join_hd[OF False] by simp
    have G: "\<forall>e \<in> set E. CHR ''/'' \<notin> set e" using el by blast
    have "abs_key wd (root @ strings_Join E ''/'') = foldl walk_step start E"
      unfolding root_def start_def by (rule abs_key_render[OF False G \<open>hd E \<noteq> []\<close>])
    then show ?thesis using key d jne by simp
  qed
qed

text \<open>The directory that \<^verbatim>\<open>snapshot\<close> creates is the parent of the file it writes.\<close>

lemma snapshotPath_parent:
  assumes "snapshotPath w frames name callerSkip = Inr path"
  shows "path \<noteq> [] \<and> filepath_Dir path \<noteq> []
       \<and> abs_key wd path \<noteq> []
       \<and> abs_key wd (filepath_Dir path) = butlast (abs_key wd path)"
proof -
  from snapshotPath_shape[OF assms] obtain r E n where ns: "normal_stack r (rev E)"
    and n: "CHR ''/'' \<notin> set n" "n \<noteq> []" "n \<noteq> ''.''" "n \<noteq> ''..''"
    and p: "path = (if r then ''/'' else []) @ strings_Join (E @ [n]) ''/''"
    by blast
  have el: "\<forall>e \<in> set E. e \<noteq> [] \<and> CHR ''/'' \<notin> set e"
    using normal_stack_elems[OF ns] by simp
  have F: "E @ [n] \<noteq> []" "\<forall>e \<in> set (E @ [n]). CHR ''/'' \<notin> set e" "hd (E @ [n]) \<noteq> []"
    using el n by (auto simp: hd_append)
  have "abs_key wd path = foldl walk_step (if r then [] else wd) (E @ [n])"
    unfolding p by (rule abs_key_render[OF F])
  then have k: "abs_key wd path \<noteq> []" using n by (simp add: walk_step_def)
  have "strings_Join (E @ [n]) ''/'' \<noteq> []" using strings_Join_hd[OF F(1,3)] by simp
  then have "path \<noteq> []" by (simp add: p)
  then show ?thesis using Dir_of_shape[OF ns n p, of wd] k by simp
qed

section \<open>Facts about the file tree\<close>

lemma namei_after_write:
  "namei t cur ks = Inr Directory \<Longrightarrow>
   namei (t(cur @ ks @ [k] \<mapsto> File c)) cur (ks @ [k]) = Inr (File c)"
proof (induction ks arbitrary: cur)
  case Nil
  then show ?case by simp
next
  case (Cons a ks)
  from Cons.prems have dir: "t (cur @ [a]) = Some Directory"
    and rest: "namei t (cur @ [a]) ks = Inr Directory"
    by (auto split: option.splits node.splits if_splits)
  define t' where "t' = t((cur @ [a]) @ ks @ [k] \<mapsto> File c)"
  have ih: "namei t' (cur @ [a]) (ks @ [k]) = Inr (File c)"
    unfolding t'_def by (rule Cons.IH[OF rest])
  have "t' (cur @ [a]) = Some Directory" using dir by (simp add: t'_def)
  then have "namei t' cur ((a # ks) @ [k]) = namei t' (cur @ [a]) (ks @ [k])" by simp
  with ih have "namei t' cur ((a # ks) @ [k]) = Inr (File c)" by (simp only:)
  then show ?case unfolding t'_def by (simp only: append_assoc append_Cons append_Nil)
qed

lemma os_WriteFile_then_ReadFile:
  assumes "os_WriteFile d path data = (None, d2)"
  shows "os_ReadFile d2 path = Inr data"
proof -
  let ?key = "abs_key (cwd d) path"
  from assms have ne: "path \<noteq> []" and kne: "?key \<noteq> []"
    and par: "namei (tree d) [] (butlast ?key) = Inr Directory"
    and d2: "d2 = d\<lparr>tree := (tree d)(?key \<mapsto> File data)\<rparr>"
    by (auto simp: os_WriteFile_def Let_def split: if_splits sum.splits node.splits option.splits)
  have "namei ((tree d)([] @ butlast ?key @ [last ?key] \<mapsto> File data)) [] (butlast ?key @ [last ?key])
        = Inr (File data)"
    by (rule namei_after_write[OF par])
  then have "namei ((tree d)(?key \<mapsto> File data)) [] ?key = Inr (File data)"
    using kne by simp
  then show ?thesis using ne d2 by (simp add: os_ReadFile_def os_Stat_def)
qed

lemma namei_after_mkdir:
  "namei t cur ks = Inr Directory \<Longrightarrow>
   namei (t(cur @ ks @ [k] \<mapsto> Directory)) cur (ks @ [k]) = Inr Directory"
proof (induction ks arbitrary: cur)
  case Nil
  then show ?case by simp
next
  case (Cons a ks)
  from Cons.prems have dir: "t (cur @ [a]) = Some Directory"
    and rest: "namei t (cur @ [a]) ks = Inr Directory"
    by (auto split: option.splits node.splits if_splits)
  define t' where "t' = t((cur @ [a]) @ ks @ [k] \<mapsto> Directory)"
  have ih: "namei t' (cur @ [a]) (ks @ [k]) = Inr Directory"
    unfolding t'_def by (rule Cons.IH[OF rest])
  have "t' (cur @ [a]) = Some Directory" using dir by (simp add: t'_def)
  then have "namei t' cur ((a # ks) @ [k]) = namei t' (cur @ [a]) (ks @ [k])" by simp
  with ih have "namei t' cur ((a # ks) @ [k]) = Inr Directory" by (simp only:)
  then show ?case unfolding t'_def by (simp only: append_assoc append_Cons append_Nil)
qed

lemma namei_other_key:
  "namei t cur ks = Inr Directory \<Longrightarrow> t k \<noteq> Some Directory \<Longrightarrow>
   namei (t(k \<mapsto> v)) cur ks = Inr Directory"
proof (induction ks arbitrary: cur)
  case Nil
  then show ?case by simp
next
  case (Cons a ks)
  from Cons.prems(1) have dir: "t (cur @ [a]) = Some Directory"
    and rest: "namei t (cur @ [a]) ks = Inr Directory"
    by (auto split: option.splits node.splits if_splits)
  define t' where "t' = t(k \<mapsto> v)"
  have ih: "namei t' (cur @ [a]) ks = Inr Directory"
    unfolding t'_def by (rule Cons.IH[OF rest Cons.prems(2)])
  have "cur @ [a] \<noteq> k" using dir Cons.prems(2) by auto
  then have "t' (cur @ [a]) = Some Directory" using dir by (simp add: t'_def)
  then have "namei t' cur (a # ks) = namei t' (cur @ [a]) ks" by simp
  with ih show ?case by (simp only: t'_def)
qed

lemma namei_prefixes:
  "namei t cur ks = Inr Directory \<Longrightarrow> 0 < n \<Longrightarrow> n \<le> length ks \<Longrightarrow>
   t (cur @ take n ks) = Some Directory"
proof (induction ks arbitrary: cur n)
  case Nil
  then show ?case by simp
next
  case (Cons a ks)
  from Cons.prems(1) have dir: "t (cur @ [a]) = Some Directory"
    and rest: "namei t (cur @ [a]) ks = Inr Directory"
    by (auto split: option.splits node.splits if_splits)
  from Cons.prems(2) obtain m where n: "n = Suc m" by (cases n) auto
  show ?case
  proof (cases "m = 0")
    case True
    then show ?thesis using dir n by simp
  next
    case False
    then have "t ((cur @ [a]) @ take m ks) = Some Directory"
      using Cons.prems(3) n by (intro Cons.IH[OF rest]) auto
    then show ?thesis using n by simp
  qed
qed

lemma namei_file_parent:
  "namei t cur ks = Inr (File c) \<Longrightarrow>
   ks \<noteq> [] \<and> namei t cur (butlast ks) = Inr Directory \<and> t (cur @ ks) = Some (File c)"
proof (induction ks arbitrary: cur)
  case Nil
  then show ?case by simp
next
  case (Cons a ks)
  show ?case
  proof (cases "ks = []")
    case True
    then show ?thesis using Cons.prems by (auto split: option.splits node.splits)
  next
    case False
    with Cons.prems have dir: "t (cur @ [a]) = Some Directory"
      and rest: "namei t (cur @ [a]) ks = Inr (File c)"
      by (auto split: option.splits node.splits if_splits)
    from Cons.IH[OF rest] have "namei t (cur @ [a]) (butlast ks) = Inr Directory"
      and "t ((cur @ [a]) @ ks) = Some (File c)" by simp_all
    then show ?thesis using dir False by simp
  qed
qed

lemma os_Mkdir_cwd: "cwd (snd (os_Mkdir d path)) = cwd d"
  by (simp add: os_Mkdir_def Let_def split: sum.splits node.splits option.splits)

lemma os_Mkdir_then_Stat:
  assumes "os_Mkdir d path = (None, d2)"
  shows "os_Stat d2 path = Inr Directory"
proof -
  let ?key = "abs_key (cwd d) path"
  from assms have ne: "path \<noteq> []" and kne: "?key \<noteq> []"
    and par: "namei (tree d) [] (butlast ?key) = Inr Directory"
    and d2: "d2 = d\<lparr>tree := (tree d)(?key \<mapsto> Directory)\<rparr>"
    by (auto simp: os_Mkdir_def Let_def split: if_splits sum.splits node.splits option.splits)
  have "namei ((tree d)([] @ butlast ?key @ [last ?key] \<mapsto> Directory)) [] (butlast ?key @ [last ?key])
        = Inr Directory"
    by (rule namei_after_mkdir[OF par])
  then have "namei ((tree d)(?key \<mapsto> Directory)) [] ?key = Inr Directory"
    using kne by simp
  then show ?thesis using ne d2 by (simp add: os_Stat_def)
qed

lemma os_MkdirAll_slow_path:
  assumes "os_Stat d path = Inl e"
    and "(if mkdir_parent path \<noteq> [] then os_MkdirAll d (mkdir_parent path) else (None, d))
         = (err, d')"
  shows "os_MkdirAll d path =
      (if err \<noteq> None then (err, d')
       else (case os_Mkdir d' path of
               (None, d'') \<Rightarrow> (None, d'')
             | (Some err', d'') \<Rightarrow>
                 (case os_Stat d' path of
                    Inr Directory \<Rightarrow> (None, d')
                  | _ \<Rightarrow> (Some err', d'))))"
proof (cases "mkdir_parent path = []")
  case True
  then have r: "err = None" "d' = d" using assms(2) by simp_all
  show ?thesis unfolding r
    by (subst os_MkdirAll.simps) (simp add: assms(1) True Let_def)
next
  case False
  then have p: "os_MkdirAll d (mkdir_parent path) = (err, d')" using assms(2) by simp
  show ?thesis
    by (subst os_MkdirAll.simps) (simp add: assms(1) False Let_def p)
qed

lemma os_MkdirAll_cwd: "cwd (snd (os_MkdirAll d path)) = cwd d"
proof (induction d path rule: os_MkdirAll.induct)
  case (1 d path)
  show ?case
  proof (cases "os_Stat d path")
    case (Inr nd)
    then show ?thesis by (subst os_MkdirAll.simps) (simp split: node.splits)
  next
    case (Inl e)
    obtain err d' where res:
      "(if mkdir_parent path \<noteq> [] then os_MkdirAll d (mkdir_parent path) else (None, d)) = (err, d')"
      by (cases "if mkdir_parent path \<noteq> [] then os_MkdirAll d (mkdir_parent path) else (None, d)")
    have rc: "cwd d' = cwd d"
      using "1.IH"[OF Inl refl] res by (auto split: if_splits)
    show ?thesis
      unfolding os_MkdirAll_slow_path[OF Inl res] using rc os_Mkdir_cwd[of d' path]
      by (auto split: prod.splits option.splits sum.splits node.splits)
  qed
qed

lemma os_MkdirAll_then_Stat:
  assumes "os_MkdirAll d path = (None, d1)"
  shows "os_Stat d1 path = Inr Directory"
proof (cases "os_Stat d path")
  case (Inr nd)
  then show ?thesis using assms by (subst (asm) os_MkdirAll.simps) (auto split: node.splits)
next
  case (Inl e)
  obtain err d' where res:
    "(if mkdir_parent path \<noteq> [] then os_MkdirAll d (mkdir_parent path) else (None, d)) = (err, d')"
    by (cases "if mkdir_parent path \<noteq> [] then os_MkdirAll d (mkdir_parent path) else (None, d)")
  note unf = os_MkdirAll_slow_path[OF Inl res]
  show ?thesis
  proof (cases "os_Mkdir d' path")
    case (Pair merr d'')
    show ?thesis
    proof (cases merr)
      case None
      then have "d1 = d''" using assms unf Pair by (auto split: if_splits)
      then show ?thesis using os_Mkdir_then_Stat[of d' path d''] Pair None by simp
    next
      case (Some err')
      then have "os_Stat d' path = Inr Directory \<and> d1 = d'"
        using assms unf Pair by (auto split: if_splits sum.splits node.splits)
      then show ?thesis by simp
    qed
  qed
qed

lemma os_MkdirAll_existing:
  "os_Stat d path = Inr Directory \<Longrightarrow> os_MkdirAll d path = (None, d)"
  by (subst os_MkdirAll.simps) simp

lemma os_WriteFile_result:
  assumes "os_WriteFile d path data = (None, d2)"
  shows "d2 = d\<lparr>tree := (tree d)(abs_key (cwd d) path \<mapsto> File data)\<rparr>
       \<and> abs_key (cwd d) path \<noteq> []
       \<and> namei (tree d) [] (butlast (abs_key (cwd d) path)) = Inr Directory
       \<and> tree d (abs_key (cwd d) path) \<noteq> Some Directory"
  using assms
  by (auto simp: os_WriteFile_def Let_def split: if_splits sum.splits node.splits option.splits)

lemma os_WriteFile_keeps_dirs:
  assumes "os_WriteFile d path data = (None, d2)" "os_Stat d p = Inr Directory"
  shows "os_Stat d2 p = Inr Directory"
proof -
  note r = os_WriteFile_result[OF assms(1)]
  from assms(2) have pne: "p \<noteq> []" and nm: "namei (tree d) [] (abs_key (cwd d) p) = Inr Directory"
    by (auto simp: os_Stat_def split: if_splits)
  have "namei ((tree d)(abs_key (cwd d) path \<mapsto> File data)) [] (abs_key (cwd d) p) = Inr Directory"
    using r by (intro namei_other_key[OF nm]) simp
  then show ?thesis using r pne by (simp add: os_Stat_def)
qed

lemma os_WriteFile_existing:
  assumes "os_ReadFile d path = Inr old"
  shows "os_WriteFile d path data = (None, d\<lparr>tree := (tree d)(abs_key (cwd d) path \<mapsto> File data)\<rparr>)"
proof -
  from assms have pne: "path \<noteq> []"
    and nm: "namei (tree d) [] (abs_key (cwd d) path) = Inr (File old)"
    by (auto simp: os_ReadFile_def os_Stat_def split: if_splits sum.splits node.splits)
  from namei_file_parent[OF nm] have "abs_key (cwd d) path \<noteq> []"
    and "namei (tree d) [] (butlast (abs_key (cwd d) path)) = Inr Directory"
    and "tree d (abs_key (cwd d) path) = Some (File old)"
    by simp_all
  then show ?thesis using pne by (simp add: os_WriteFile_def Let_def)
qed

section \<open>Facts about the engine\<close>

lemma snapshotPath_frame [simp]:
  "snapshotPath (w\<lparr>disk := d\<rparr>) frames name k = snapshotPath w frames name k"
  "snapshotPath (w\<lparr>UpdateSnapshots := b\<rparr>) frames name k = snapshotPath w frames name k"
  by (simp_all add: snapshotPath_def)

lemma example_path:
  "snapshotPath (compare_world d) [] ''n'' 1 = Inr ''/tmp/x/n.golden''"
  "snapshotPath (update_world d) [] ''n'' 1 = Inr ''/tmp/x/n.golden''"
  by (simp_all add: snapshotPath_def compare_world_def update_world_def filepath_Join_def
      filepath_Clean_def clean_step_def Let_def)

lemma example_read: "os_ReadFile hello_disk ''/tmp/x/n.golden'' = Inr ''hello''"
  by (simp add: os_ReadFile_def os_Stat_def abs_key_def walk_step_def hello_disk_def)

lemma has_prefix_append: "has_prefix (sub @ b) sub"
  by (induction sub) simp_all

lemma strings_Contains_here: "has_prefix s sub \<Longrightarrow> strings_Contains s sub"
  by (cases s) simp_all

lemma strings_Contains_mid: "strings_Contains (a @ sub @ b) sub"
proof (induction a)
  case Nil
  show ?case using has_prefix_append[of sub b] by (simp add: strings_Contains_here)
next
  case (Cons x a)
  then show ?case by simp
qed

lemma example_missing: "os_Stat empty_disk ''/tmp/x/n.golden'' = Inl ENOENT"
  by (simp add: os_Stat_def abs_key_def walk_step_def empty_disk_def)

lemma example_dir: "filepath_Dir ''/tmp/x/n.golden'' = ''/tmp/x''"
  by (simp add: filepath_Dir_def filepath_Clean_def clean_step_def Let_def)

lemma example_mkdir: "os_MkdirAll empty_disk ''/tmp/x'' = (None, empty_disk)"
  by (rule os_MkdirAll_existing)
     (simp add: os_Stat_def abs_key_def walk_step_def empty_disk_def)

lemma example_write:
  "os_WriteFile empty_disk ''/tmp/x/n.golden'' ''hello'' = (None, hello_disk)"
  by (simp add: os_WriteFile_def abs_key_def walk_step_def empty_disk_def hello_disk_def Let_def)

lemma example_update:
  "snapshot L (update_world empty_disk) [] ''hello'' ''n'' 1
   = (Return, update_world hello_disk)"
proof -
  have u: "UpdateSnapshots (update_world empty_disk)"
    and dk: "disk (update_world empty_disk) = empty_disk"
    and w: "(update_world empty_disk)\<lparr>disk := hello_disk\<rparr> = update_world hello_disk"
    by (simp_all add: update_world_def)
  show ?thesis
    unfolding snapshot_def example_path
    by (simp add: u dk w example_dir example_mkdir example_write)
qed

section \<open>Creating the missing directories\<close>

lemma namei_all_dirs:
  "(\<And>n. 0 < n \<Longrightarrow> n \<le> length ks \<Longrightarrow> T (cur @ take n ks) = Some Directory) \<Longrightarrow>
   namei T cur ks = Inr Directory"
proof (induction ks arbitrary: cur)
  case Nil
  then show ?case by simp
next
  case (Cons a ks)
  have "T (cur @ take 1 (a # ks)) = Some Directory" by (rule Cons.prems) simp_all
  then have dir: "T (cur @ [a]) = Some Directory" by simp
  have "namei T (cur @ [a]) ks = Inr Directory"
  proof (rule Cons.IH)
    fix n assume n: "0 < n" "n \<le> length ks"
    have "T (cur @ take (Suc n) (a # ks)) = Some Directory" using n by (intro Cons.prems) simp_all
    then show "T ((cur @ [a]) @ take n ks) = Some Directory" by simp
  qed
  then show ?case using dir by simp
qed

lemma prefix_is_take: "prefix k K \<Longrightarrow> k = take (length k) K"
  by (auto simp: prefix_def)

lemma with_dirs_same:
  assumes "namei T [] K = Inr Directory"
  shows "with_dirs T K = T"
proof
  fix k
  show "with_dirs T K k = T k"
  proof (cases "k \<noteq> [] \<and> prefix k K")
    case True
    then have k: "k = take (length k) K" and l: "0 < length k" "length k \<le> length K"
      by (auto simp: prefix_is_take[symmetric] prefix_length_le)
    have "T ([] @ take (length k) K) = Some Directory"
      using l by (intro namei_prefixes[OF assms])
    then have "T k = Some Directory" using k by simp
    then show ?thesis by (simp add: with_dirs_def)
  next
    case False
    then show ?thesis by (auto simp: with_dirs_def)
  qed
qed

lemma namei_with_dirs:
  assumes "\<And>n c. 0 < n \<Longrightarrow> n \<le> length K \<Longrightarrow> T (take n K) \<noteq> Some (File c)"
  shows "namei (with_dirs T K) [] K = Inr Directory"
proof (rule namei_all_dirs)
  fix n assume n: "0 < n" "n \<le> length K"
  then have ne: "take n K \<noteq> []" and pre: "prefix (take n K) K"
    by (auto simp: take_is_prefix)
  show "with_dirs T K ([] @ take n K) = Some Directory"
  proof (cases "T (take n K)")
    case None
    then show ?thesis using ne pre by (simp add: with_dirs_def)
  next
    case (Some x)
    then have "x = Directory" using assms[OF n] by (cases x) auto
    then show ?thesis using Some by (simp add: with_dirs_def)
  qed
qed

lemma with_dirs_snoc_new:
  assumes "T (K @ [e]) = None"
  shows "with_dirs T (K @ [e]) = (with_dirs T K)(K @ [e] \<mapsto> Directory)"
proof
  fix k
  show "with_dirs T (K @ [e]) k = ((with_dirs T K)(K @ [e] \<mapsto> Directory)) k"
    using assms by (auto simp: with_dirs_def)
qed

lemma with_dirs_snoc_old:
  assumes "T (K @ [e]) \<noteq> None"
  shows "with_dirs T (K @ [e]) = with_dirs T K"
proof
  fix k
  show "with_dirs T (K @ [e]) k = with_dirs T K k"
    using assms by (auto simp: with_dirs_def)
qed

lemma with_dirs_outside: "\<not> prefix k K \<Longrightarrow> with_dirs T K k = T k"
  by (simp add: with_dirs_def)

lemma dotdots_take:
  "\<forall>x \<in> set F. x = ''..'' \<Longrightarrow> \<exists>m. foldl walk_step wd F = take m wd"
proof (induction F rule: rev_induct)
  case Nil
  have "foldl walk_step wd [] = take (length wd) wd" by simp
  then show ?case by blast
next
  case (snoc x F)
  then obtain m where m: "foldl walk_step wd F = take m wd" by auto
  from snoc.prems have "x = ''..''" by simp
  then have "foldl walk_step wd (F @ [x]) = butlast (take m wd)"
    using m by (simp add: walk_step_def)
  also have "\<dots> = take (length (take m wd) - 1) (take m wd)" by (simp add: butlast_conv_take)
  also have "\<dots> = take (min (length (take m wd) - 1) m) wd" by (simp only: take_take)
  finally show ?case by blast
qed

lemma namei_take:
  assumes "namei T [] wd = Inr Directory"
  shows "namei T [] (take m wd) = Inr Directory"
proof (rule namei_all_dirs)
  fix n assume n: "0 < n" "n \<le> length (take m wd)"
  then have "T ([] @ take n wd) = Some Directory"
    by (intro namei_prefixes[OF assms]) simp_all
  moreover have "n \<le> m" using n by simp
  then have "take n (take m wd) = take n wd" by (simp add: min_absorb1)
  ultimately show "T ([] @ take n (take m wd)) = Some Directory" by simp
qed

lemma abs_key_trailing:
  assumes "q \<noteq> []"
  shows "abs_key wd (q @ ''/'') = abs_key wd q"
proof -
  have "split_on (CHR ''/'') (q @ CHR ''/'' # []) = split_on (CHR ''/'') q @ [[]]"
    by (rule split_on_last_piece) simp
  then show ?thesis using assms by (simp add: abs_key_def)
qed

lemma mkdir_parent_shape:
  assumes e: "CHR ''/'' \<notin> set e" "e \<noteq> []" and t: "t = [] \<or> t = ''/''"
    and root: "root = [] \<or> root = ''/''"
  shows "mkdir_parent (root @ strings_Join (F @ [e]) ''/'' @ t)
         = (if F = [] then root else root @ strings_Join F ''/'' @ ''/'')"
proof -
  define pre where "pre = (if F = [] then root else root @ strings_Join F ''/'' @ ''/'')"
  have p: "root @ strings_Join (F @ [e]) ''/'' @ t = pre @ e @ t"
    by (simp add: pre_def strings_Join_snoc)
  have hd: "hd (rev e) \<noteq> CHR ''/''" using e by (cases "rev e") (auto simp: hd_rev last_in_set)
  have 1: "dropWhile (\<lambda>c. c = CHR ''/'') (rev t @ rev e @ rev pre) = rev e @ rev pre"
  proof -
    from e(2) obtain c cs where r: "rev e = c # cs" by (cases "rev e") auto
    with hd have "c \<noteq> CHR ''/''" by simp
    then show ?thesis using t r by auto
  qed
  have 2: "dropWhile (\<lambda>c. c \<noteq> CHR ''/'') (rev e @ rev pre) = dropWhile (\<lambda>c. c \<noteq> CHR ''/'') (rev pre)"
    using e(1) by (intro dropWhile_append2) auto
  have 3: "dropWhile (\<lambda>c. c \<noteq> CHR ''/'') (rev pre) = rev pre"
    using root by (auto simp: pre_def)
  show ?thesis
    unfolding p mkdir_parent_def pre_def[symmetric]
    using 1 2 3 by simp
qed

lemma os_MkdirAll_creates:
  assumes cw: "\<not> r \<Longrightarrow> namei (tree d) [] (cwd d) = Inr Directory"
  shows "F \<noteq> [] \<Longrightarrow> normal_stack r (rev F) \<Longrightarrow> t = [] \<or> t = ''/'' \<Longrightarrow>
     (\<And>n c. 0 < n \<Longrightarrow> n \<le> length (foldl walk_step (if r then [] else cwd d) F) \<Longrightarrow>
        tree d (take n (foldl walk_step (if r then [] else cwd d) F)) \<noteq> Some (File c)) \<Longrightarrow>
     os_MkdirAll d ((if r then ''/'' else []) @ strings_Join F ''/'' @ t)
       = (None, d\<lparr>tree := with_dirs (tree d) (foldl walk_step (if r then [] else cwd d) F)\<rparr>)"
proof (induction F arbitrary: t rule: rev_induct)
  case Nil
  then show ?case by simp
next
  case (snoc e F)
  define root where "root = (if r then ''/'' else [])"
  define start where "start = (if r then [] else cwd d)"
  define T where "T = tree d"
  define K where "K = foldl walk_step start (F @ [e])"
  define K' where "K' = foldl walk_step start F"
  define p where "p = root @ strings_Join (F @ [e]) ''/'' @ t"
  note ns = snoc.prems(2)
  note t = snoc.prems(3)
  have nofile: "\<And>n c. 0 < n \<Longrightarrow> n \<le> length K \<Longrightarrow> T (take n K) \<noteq> Some (File c)"
    using snoc.prems(4) unfolding K_def start_def T_def by blast
  have el: "\<forall>x \<in> set (F @ [e]). x \<noteq> [] \<and> CHR ''/'' \<notin> set x"
    using normal_stack_elems[OF ns] by simp
  have e: "e \<noteq> []" "CHR ''/'' \<notin> set e" "e \<noteq> ''.''" using ns by simp_all
  have nsF: "normal_stack r (rev F)" using ns by simp
  have G: "F @ [e] \<noteq> []" "\<forall>x \<in> set (F @ [e]). CHR ''/'' \<notin> set x" "hd (F @ [e]) \<noteq> []"
    using el by (auto simp: hd_append)
  have jne: "strings_Join (F @ [e]) ''/'' \<noteq> []" using strings_Join_hd[OF G(1,3)] by simp
  have k0: "abs_key (cwd d) (root @ strings_Join (F @ [e]) ''/'') = K"
    unfolding root_def K_def start_def by (rule abs_key_render[OF G])
  have key: "abs_key (cwd d) p = K"
  proof (cases "t = []")
    case True
    then show ?thesis using k0 by (simp add: p_def)
  next
    case False
    then have "p = (root @ strings_Join (F @ [e]) ''/'') @ ''/''" using t by (simp add: p_def)
    then show ?thesis using abs_key_trailing[of "root @ strings_Join (F @ [e]) ''/''" "cwd d"] jne k0
      by simp
  qed
  have pne: "p \<noteq> []" using jne by (simp add: p_def)
  have stat: "os_Stat d p = namei T [] K" using pne key by (simp add: os_Stat_def T_def)
  have existing: "os_MkdirAll d p = (None, d\<lparr>tree := with_dirs T K\<rparr>)"
    if dir: "namei T [] K = Inr Directory"
  proof -
    have "os_MkdirAll d p = (None, d)" using stat dir by (intro os_MkdirAll_existing) simp
    moreover have "with_dirs T K = T" by (rule with_dirs_same[OF dir])
    ultimately show ?thesis by (simp add: T_def)
  qed
  have goal: "os_MkdirAll d p = (None, d\<lparr>tree := with_dirs T K\<rparr>)"
  proof (cases "e = ''..''")
    case True
    with ns have nr: "\<not> r" and dd: "\<forall>x \<in> set (F @ [e]). x = ''..''" by auto
    from dotdots_take[OF dd, of "cwd d"] obtain m where "K = take m (cwd d)"
      using nr by (auto simp: K_def start_def)
    then have "namei T [] K = Inr Directory"
      using namei_take[OF cw[OF nr]] by (simp add: T_def)
    then show ?thesis by (rule existing)
  next
    case False
    then have KK: "K = K' @ [e]" using e by (simp add: K_def K'_def walk_step_def)
    have nofile': "\<And>n c. 0 < n \<Longrightarrow> n \<le> length K' \<Longrightarrow> T (take n K') \<noteq> Some (File c)"
    proof -
      fix n c assume n: "0 < n" "n \<le> length K'"
      then have "T (take n K) \<noteq> Some (File c)" by (intro nofile) (simp_all add: KK)
      then show "T (take n K') \<noteq> Some (File c)" using n by (simp add: KK)
    qed
    have TK: "\<And>c. T K \<noteq> Some (File c)" using nofile[of "length K"] by (simp add: KK)
    show ?thesis
    proof (cases "os_Stat d p")
      case (Inr nd)
      show ?thesis
      proof (cases nd)
        case Directory
        then show ?thesis using Inr stat by (intro existing) simp
      next
        case (File c)
        then have "namei T [] K = Inr (File c)" using Inr stat by simp
        from namei_file_parent[OF this] have "T K = Some (File c)" by simp
        then show ?thesis using TK by simp
      qed
    next
      case (Inl en)
      have par: "mkdir_parent p = (if F = [] then root else root @ strings_Join F ''/'' @ ''/'')"
        unfolding p_def by (rule mkdir_parent_shape[OF e(2,1) t]) (simp add: root_def)
      define d1 where "d1 = d\<lparr>tree := with_dirs T K'\<rparr>"
      have rec: "(if mkdir_parent p \<noteq> [] then os_MkdirAll d (mkdir_parent p) else (None, d))
                 = (None, d1)"
      proof (cases "F = []")
        case True
        then have K'0: "K' = start" by (simp add: K'_def)
        have "namei T [] start = Inr Directory"
          using cw by (auto simp: start_def T_def)
        then have same: "with_dirs T K' = T" unfolding K'0 by (rule with_dirs_same)
        then have d1d: "d1 = d" by (simp add: d1_def T_def)
        show ?thesis
        proof (cases r)
          case True
          have "os_Stat d ''/'' = Inr Directory" by (simp add: os_Stat_def abs_key_root)
          then have "os_MkdirAll d ''/'' = (None, d)" by (rule os_MkdirAll_existing)
          then show ?thesis using par \<open>F = []\<close> True d1d by (simp add: root_def)
        next
          case False
          then show ?thesis using par \<open>F = []\<close> d1d by (simp add: root_def)
        qed
      next
        case False
        have "os_MkdirAll d ((if r then ''/'' else []) @ strings_Join F ''/'' @ ''/'')
              = (None, d\<lparr>tree := with_dirs (tree d) (foldl walk_step (if r then [] else cwd d) F)\<rparr>)"
        proof (rule snoc.IH[OF False nsF])
          show "''/'' = [] \<or> ''/'' = ''/''" by simp
        next
          fix n c
          assume "0 < n" "n \<le> length (foldl walk_step (if r then [] else cwd d) F)"
          then show "tree d (take n (foldl walk_step (if r then [] else cwd d) F)) \<noteq> Some (File c)"
            using nofile'[of n c] by (simp add: K'_def start_def T_def)
        qed
        then show ?thesis using par False
          by (simp add: root_def d1_def K'_def start_def T_def)
      qed
      have c1: "cwd d1 = cwd d" and t1: "tree d1 = with_dirs T K'" by (simp_all add: d1_def)
      have parent_ok: "namei (tree d1) [] K' = Inr Directory"
        unfolding t1 by (rule namei_with_dirs) (rule nofile')
      have "\<not> prefix K K'" by (auto simp: KK prefix_def)
      then have atK: "tree d1 K = T K" unfolding t1 by (rule with_dirs_outside)
      have unf: "os_MkdirAll d p =
          (case os_Mkdir d1 p of
             (None, d'') \<Rightarrow> (None, d'')
           | (Some err', d'') \<Rightarrow>
               (case os_Stat d1 p of
                  Inr Directory \<Rightarrow> (None, d1)
                | _ \<Rightarrow> (Some err', d1)))"
        using os_MkdirAll_slow_path[OF Inl rec] by simp
      show ?thesis
      proof (cases "T K")
        case None
        have "os_Mkdir d1 p = (None, d1\<lparr>tree := (tree d1)(K \<mapsto> Directory)\<rparr>)"
          using pne key c1 parent_ok atK None by (simp add: os_Mkdir_def Let_def KK)
        moreover have "with_dirs T K = (with_dirs T K')(K \<mapsto> Directory)"
          unfolding KK by (rule with_dirs_snoc_new) (use None KK in simp)
        ultimately show ?thesis unfolding unf by (simp add: d1_def)
      next
        case (Some x)
        then have x: "x = Directory" using TK by (cases x) auto
        have mk: "os_Mkdir d1 p = (Some (PathError ''mkdir'' p EEXIST), d1)"
          using pne key c1 parent_ok atK Some by (simp add: os_Mkdir_def Let_def KK)
        have same: "with_dirs T K = with_dirs T K'"
          unfolding KK by (rule with_dirs_snoc_old) (use Some KK in simp)
        have "namei (with_dirs T K) [] K = Inr Directory"
          by (rule namei_with_dirs) (rule nofile)
        then have "os_Stat d1 p = Inr Directory"
          using pne key c1 by (simp add: os_Stat_def t1 same)
        then show ?thesis unfolding unf mk by (simp add: d1_def same)
      qed
    qed
  qed
  then show ?case unfolding p_def root_def K_def start_def T_def .
qed

lemma path_shape_facts:
  assumes ns: "normal_stack r (rev E)"
    and n: "CHR ''/'' \<notin> set n" "n \<noteq> []" "n \<noteq> ''.''" "n \<noteq> ''..''"
    and p: "path = (if r then ''/'' else []) @ strings_Join (E @ [n]) ''/''"
  shows "(hd path = CHR ''/'') = r"
    and "filepath_Dir path
         = (if E = [] then (if r then ''/'' else ''.'')
            else (if r then ''/'' else []) @ strings_Join E ''/'')"
    and "abs_key wd path = foldl walk_step (if r then [] else wd) E @ [n]"
proof -
  define root where "root = (if r then ''/'' else [])"
  have el: "\<forall>e \<in> set E. e \<noteq> [] \<and> CHR ''/'' \<notin> set e"
    using normal_stack_elems[OF ns] by simp
  have F: "E @ [n] \<noteq> []" "\<forall>e \<in> set (E @ [n]). CHR ''/'' \<notin> set e" "hd (E @ [n]) \<noteq> []"
    using el n by (auto simp: hd_append)
  have jne: "strings_Join (E @ [n]) ''/'' \<noteq> []"
    and h: "hd (strings_Join (E @ [n]) ''/'') = hd (hd (E @ [n]))"
    using strings_Join_hd[OF F(1,3)] by simp_all
  have "hd (hd (E @ [n])) \<in> set (hd (E @ [n]))" using F(3) by simp
  moreover have "hd (E @ [n]) \<in> set (E @ [n])" using F(1) hd_in_set by blast
  ultimately have "hd (hd (E @ [n])) \<noteq> CHR ''/''" using F(2) by metis
  then have "hd (strings_Join (E @ [n]) ''/'') \<noteq> CHR ''/''" using h by simp
  then show "(hd path = CHR ''/'') = r" using jne by (simp add: p)
  have "abs_key wd path = foldl walk_step (if r then [] else wd) (E @ [n])"
    unfolding p by (rule abs_key_render[OF F])
  then show "abs_key wd path = foldl walk_step (if r then [] else wd) E @ [n]"
    using n by (simp add: walk_step_def)
  show "filepath_Dir path
         = (if E = [] then (if r then ''/'' else ''.'')
            else (if r then ''/'' else []) @ strings_Join E ''/'')"
  proof (cases "E = []")
    case True
    then have "path = root @ n" by (simp add: p root_def)
    then have "filepath_Dir path
        = filepath_Clean (rev (dropWhile (\<lambda>c. c \<noteq> CHR ''/'') (rev root)))"
      by (simp only: filepath_Dir_def strip_last_name[OF n(1)])
    then show ?thesis using True by (simp add: root_def Clean_root)
  next
    case False
    then have "path = (root @ strings_Join E ''/'' @ ''/'') @ n"
      by (simp add: p root_def strings_Join_snoc)
    then have "filepath_Dir path
        = filepath_Clean (rev (dropWhile (\<lambda>c. c \<noteq> CHR ''/'') (rev (root @ strings_Join E ''/'' @ ''/''))))"
      by (simp only: filepath_Dir_def strip_last_name[OF n(1)])
    also have "\<dots> = filepath_Clean (root @ strings_Join E ''/'' @ ''/'')" by simp
    also have "\<dots> = root @ strings_Join E ''/''"
      unfolding root_def by (rule Clean_trailing_slash[OF ns False])
    finally show ?thesis using False by (simp add: root_def)
  qed
qed

text \<open>What \<^verbatim>\<open>os.MkdirAll\<close> does for the directory of a resolved path: it succeeds unless
  a regular file stands in the way, and makes every missing ancestor a directory.\<close>

lemma os_MkdirAll_snapshot_dir:
  assumes sp: "snapshotPath w frames name callerSkip = Inr path"
    and cw: "hd path \<noteq> CHR ''/'' \<longrightarrow> namei (tree d) [] (cwd d) = Inr Directory"
    and nofile: "\<And>n c. 0 < n \<Longrightarrow> n < length (abs_key (cwd d) path) \<Longrightarrow>
                  tree d (take n (abs_key (cwd d) path)) \<noteq> Some (File c)"
  shows "os_MkdirAll d (filepath_Dir path)
         = (None, d\<lparr>tree := with_dirs (tree d) (butlast (abs_key (cwd d) path))\<rparr>)"
proof -
  from snapshotPath_shape[OF sp] obtain r E n where ns: "normal_stack r (rev E)"
    and n: "CHR ''/'' \<notin> set n" "n \<noteq> []" "n \<noteq> ''.''" "n \<noteq> ''..''"
    and p: "path = (if r then ''/'' else []) @ strings_Join (E @ [n]) ''/''"
    by blast
  note facts = path_shape_facts[OF ns n p]
  define start where "start = (if r then [] else cwd d)"
  define Kd where "Kd = foldl walk_step start E"
  have key: "abs_key (cwd d) path = Kd @ [n]" using facts(3)[of "cwd d"] by (simp add: Kd_def start_def)
  have cw': "\<not> r \<Longrightarrow> namei (tree d) [] (cwd d) = Inr Directory" using cw facts(1) by simp
  have nofile': "\<And>m c. 0 < m \<Longrightarrow> m \<le> length Kd \<Longrightarrow> tree d (take m Kd) \<noteq> Some (File c)"
  proof -
    fix m c assume m: "0 < m" "m \<le> length Kd"
    then have "tree d (take m (abs_key (cwd d) path)) \<noteq> Some (File c)"
      by (intro nofile) (simp_all add: key)
    then show "tree d (take m Kd) \<noteq> Some (File c)" using m by (simp add: key)
  qed
  show ?thesis
  proof (cases "E = []")
    case True
    then have Kd0: "Kd = start" by (simp add: Kd_def)
    have dir: "filepath_Dir path = (if r then ''/'' else ''.'')" using facts(2) True by simp
    have st: "namei (tree d) [] start = Inr Directory" using cw' by (auto simp: start_def)
    have "os_Stat d (filepath_Dir path) = Inr Directory"
      using st by (auto simp: dir os_Stat_def abs_key_root start_def)
    then have "os_MkdirAll d (filepath_Dir path) = (None, d)" by (rule os_MkdirAll_existing)
    moreover have "with_dirs (tree d) Kd = tree d" unfolding Kd0 by (rule with_dirs_same[OF st])
    ultimately show ?thesis by (simp add: key)
  next
    case False
    then have dir: "filepath_Dir path = (if r then ''/'' else []) @ strings_Join E ''/'' @ []"
      using facts(2) by simp
    have "os_MkdirAll d ((if r then ''/'' else []) @ strings_Join E ''/'' @ [])
          = (None, d\<lparr>tree := with_dirs (tree d) (foldl walk_step (if r then [] else cwd d) E)\<rparr>)"
    proof (rule os_MkdirAll_creates[OF cw' False ns])
      show "[] = [] \<or> [] = ''/''" by simp
    next
      fix m c
      assume "0 < m" "m \<le> length (foldl walk_step (if r then [] else cwd d) E)"
      then show "tree d (take m (foldl walk_step (if r then [] else cwd d) E)) \<noteq> Some (File c)"
        using nofile'[of m c] by (simp add: Kd_def start_def)
    qed
    then show ?thesis unfolding dir by (simp add: key Kd_def start_def)
  qed
qed

text \<open>The update branch on a disk where no regular file is in the way.\<close>

lemma snapshot_update_creates:
  assumes up: "UpdateSnapshots w"
    and sp: "snapshotPath w frames name callerSkip = Inr path"
    and cw: "hd path \<noteq> CHR ''/'' \<longrightarrow> namei (tree (disk w)) [] (cwd (disk w)) = Inr Directory"
    and nofile: "\<And>n c. 0 < n \<Longrightarrow> n < length (abs_key (cwd (disk w)) path) \<Longrightarrow>
                  tree (disk w) (take n (abs_key (cwd (disk w)) path)) \<noteq> Some (File c)"
    and notdir: "tree (disk w) (abs_key (cwd (disk w)) path) \<noteq> Some Directory"
  shows "snapshot L w frames content name callerSkip
         = (Return,
            w\<lparr>disk := (disk w)\<lparr>tree :=
                 (with_dirs (tree (disk w)) (butlast (abs_key (cwd (disk w)) path)))
                   (abs_key (cwd (disk w)) path \<mapsto> File content)\<rparr>\<rparr>)"
proof -
  define d where "d = disk w"
  define key where "key = abs_key (cwd d) path"
  define d1 where "d1 = d\<lparr>tree := with_dirs (tree d) (butlast key)\<rparr>"
  note par = snapshotPath_parent[OF sp, of "cwd d"]
  have kne: "key \<noteq> []" and pne: "path \<noteq> []" using par by (simp_all add: key_def)
  have mk: "os_MkdirAll d (filepath_Dir path) = (None, d1)"
    unfolding d1_def key_def
    by (rule os_MkdirAll_snapshot_dir[OF sp]) (use cw nofile in \<open>simp_all add: d_def\<close>)
  have "namei (with_dirs (tree d) (butlast key)) [] (butlast key) = Inr Directory"
  proof (rule namei_with_dirs)
    fix n c assume n: "0 < n" "n \<le> length (butlast key)"
    then have "tree d (take n key) \<noteq> Some (File c)"
      using nofile[of n c] by (simp add: d_def key_def)
    then show "tree d (take n (butlast key)) \<noteq> Some (File c)" using n by (simp add: take_butlast)
  qed
  then have parent_ok: "namei (tree d1) [] (butlast key) = Inr Directory" by (simp add: d1_def)
  from kne obtain ks k where ks: "key = ks @ [k]" by (cases key rule: rev_cases) auto
  have "\<not> prefix key (butlast key)"
  proof
    assume "prefix key (butlast key)"
    then have "length (ks @ [k]) \<le> length ks" using ks prefix_length_le by fastforce
    then show False by simp
  qed
  then have "tree d1 key = tree d key" by (simp add: d1_def with_dirs_outside)
  then have atkey: "tree d1 key \<noteq> Some Directory" using notdir by (simp add: d_def key_def)
  have c1: "cwd d1 = cwd d" by (simp add: d1_def)
  have wr: "os_WriteFile d1 path content = (None, d1\<lparr>tree := (tree d1)(key \<mapsto> File content)\<rparr>)"
    using pne kne parent_ok atkey c1
    by (auto simp: os_WriteFile_def Let_def key_def split: option.splits node.splits)
  show ?thesis
    using up sp mk wr by (simp add: snapshot_def Let_def d_def[symmetric] key_def[symmetric] d1_def)
qed

section \<open>The file a resolved path names\<close>

lemma split_on_append:
  "split_on sep (xs @ sep # ys) = split_on sep xs @ split_on sep ys"
proof (induction xs)
  case Nil
  then show ?case by simp
next
  case (Cons x xs)
  then show ?case using split_on_not_Nil[of sep xs]
    by (cases "split_on sep xs") auto
qed

lemma walk_clean_step:
  assumes root: "r \<Longrightarrow> start = []" and ns: "normal_stack r st"
  shows "foldl walk_step start (rev (clean_step r st c))
         = walk_step (foldl walk_step start (rev st)) c"
proof (cases "c = [] \<or> c = ''.''")
  case True
  then show ?thesis by (auto simp: clean_step_def walk_step_def)
next
  case False
  note plain = False
  show ?thesis
  proof (cases "c = ''..''")
    case False
    then show ?thesis using plain by (simp add: clean_step_def)
  next
    case True
    show ?thesis
    proof (cases st)
      case Nil
      then show ?thesis using True root by (auto simp: clean_step_def walk_step_def)
    next
      case (Cons e rest)
      show ?thesis
      proof (cases "e = ''..''")
        case dd: True
        then show ?thesis using True Cons by (simp add: clean_step_def)
      next
        case False
        from ns Cons have "e \<noteq> []" "e \<noteq> ''.''" by simp_all
        then have "walk_step (foldl walk_step start (rev rest)) e
                   = foldl walk_step start (rev rest) @ [e]"
          using False by (simp add: walk_step_def)
        then have "walk_step (foldl walk_step start (rev st)) c = foldl walk_step start (rev rest)"
          using True Cons by (simp add: walk_step_def)
        moreover have "clean_step r st c = rest" using True Cons False by (simp add: clean_step_def)
        ultimately show ?thesis by simp
      qed
    qed
  qed
qed

lemma walk_clean_fold:
  assumes root: "r \<Longrightarrow> start = []"
  shows "normal_stack r st \<Longrightarrow> \<forall>c \<in> set cs. CHR ''/'' \<notin> set c \<Longrightarrow>
         foldl walk_step start (rev (foldl (clean_step r) st cs))
         = foldl walk_step (foldl walk_step start (rev st)) cs"
proof (induction cs arbitrary: st)
  case Nil
  then show ?case by simp
next
  case (Cons c cs)
  have ns': "normal_stack r (clean_step r st c)"
    using Cons.prems by (intro clean_step_normal) simp_all
  have "foldl walk_step start (rev (foldl (clean_step r) (clean_step r st c) cs))
        = foldl walk_step (foldl walk_step start (rev (clean_step r st c))) cs"
    using Cons.prems(2) by (intro Cons.IH[OF ns']) simp
  then show ?case using walk_clean_step[OF root Cons.prems(1), of c] by simp
qed

lemma Clean_elems:
  assumes "p \<noteq> []"
    and r: "r = (hd p = CHR ''/'')"
    and E: "E = rev (foldl (clean_step r) [] (split_on (CHR ''/'') p))"
  shows "normal_stack r (rev E)"
    and "filepath_Clean p
         = (if E = [] then (if r then ''/'' else ''.'') else (if r then ''/'' else []) @ strings_Join E ''/'')"
proof -
  show "normal_stack r (rev E)"
    unfolding E rev_rev_ident by (rule clean_fold_normal) (simp_all add: split_on_pieces)
  show "filepath_Clean p
         = (if E = [] then (if r then ''/'' else ''.'') else (if r then ''/'' else []) @ strings_Join E ''/'')"
    using assms(1) unfolding filepath_Clean_def Let_def r[symmetric] E by auto
qed

lemma Clean_not_empty: "filepath_Clean p \<noteq> []"
proof (cases "p = []")
  case True
  then show ?thesis by (simp add: filepath_Clean_def)
next
  case False
  define r where "r = (hd p = CHR ''/'')"
  define E where "E = rev (foldl (clean_step r) [] (split_on (CHR ''/'') p))"
  note ce = Clean_elems[OF False r_def E_def]
  show ?thesis
  proof (cases "E = []")
    case True
    then show ?thesis using ce(2) by simp
  next
    case ne: False
    have "\<forall>e \<in> set E. e \<noteq> [] \<and> CHR ''/'' \<notin> set e" using normal_stack_elems[OF ce(1)] by simp
    then have "hd E \<noteq> []" using ne by (cases E) auto
    then have "strings_Join E ''/'' \<noteq> []" using strings_Join_hd[OF ne] by simp
    then show ?thesis using ce(2) ne by simp
  qed
qed

text \<open>Cleaning a path does not change the file it names.\<close>

lemma abs_key_Clean: "abs_key wd (filepath_Clean p) = abs_key wd p"
proof (cases "p = []")
  case True
  then show ?thesis by (simp add: filepath_Clean_def abs_key_def walk_step_def)
next
  case False
  define r where "r = (hd p = CHR ''/'')"
  define E where "E = rev (foldl (clean_step r) [] (split_on (CHR ''/'') p))"
  define start where "start = (if r then [] else wd)"
  note ce = Clean_elems[OF False r_def E_def]
  have "foldl walk_step start (rev (foldl (clean_step r) [] (split_on (CHR ''/'') p)))
        = foldl walk_step (foldl walk_step start (rev [])) (split_on (CHR ''/'') p)"
    by (rule walk_clean_fold) (simp_all add: start_def split_on_pieces)
  then have walk: "foldl walk_step start E = foldl walk_step start (split_on (CHR ''/'') p)"
    by (simp add: E_def)
  have raw: "abs_key wd p = foldl walk_step start (split_on (CHR ''/'') p)"
    using False by (simp add: abs_key_def start_def r_def)
  have "abs_key wd (filepath_Clean p) = foldl walk_step start E"
  proof (cases "E = []")
    case True
    then show ?thesis using ce(2) by (auto simp: abs_key_root start_def)
  next
    case ne: False
    have el: "\<forall>e \<in> set E. e \<noteq> [] \<and> CHR ''/'' \<notin> set e" using normal_stack_elems[OF ce(1)] by simp
    then have h: "hd E \<noteq> []" using ne by (cases E) auto
    have G: "\<forall>e \<in> set E. CHR ''/'' \<notin> set e" using el by blast
    have "abs_key wd ((if r then ''/'' else []) @ strings_Join E ''/'') = foldl walk_step start E"
      unfolding start_def by (rule abs_key_render[OF ne G h])
    then show ?thesis using ce(2) ne by simp
  qed
  then show ?thesis using walk raw by simp
qed

lemma abs_key_under_dir:
  assumes "dir \<noteq> []"
  shows "abs_key wd (filepath_Clean (dir @ ''/'' @ n))
         = foldl walk_step (abs_key wd dir) (split_on (CHR ''/'') n)"
proof -
  have "abs_key wd (dir @ CHR ''/'' # n)
        = foldl walk_step (if hd dir = CHR ''/'' then [] else wd)
            (split_on (CHR ''/'') dir @ split_on (CHR ''/'') n)"
    using assms by (simp add: abs_key_def split_on_append)
  also have "\<dots> = foldl walk_step (abs_key wd dir) (split_on (CHR ''/'') n)"
    using assms by (simp add: abs_key_def)
  finally show ?thesis by (simp add: abs_key_Clean)
qed

lemma snapshotPath_dir:
  assumes "snapshotPath w frames name callerSkip = Inr path"
  shows "\<exists>dir. dir \<noteq> []
           \<and> (snapshotBaseDir w \<noteq> [] \<longrightarrow> dir = snapshotBaseDir w)
           \<and> (snapshotBaseDir w = [] \<longrightarrow>
                (\<exists>file. runtime_Caller frames callerSkip = Some file
                   \<and> dir = filepath_Join [filepath_Dir file, ''testdata'', ''snapshots'']))
           \<and> path = filepath_Clean (dir @ ''/'' @ name @ ''.golden'')"
proof (cases "snapshotBaseDir w = []")
  case False
  then have "path = filepath_Clean (snapshotBaseDir w @ ''/'' @ name @ ''.golden'')"
    using assms by (simp add: snapshotPath_def filepath_Join_def)
  then show ?thesis using False by blast
next
  case True
  with assms obtain src where f: "runtime_Caller frames callerSkip = Some src"
    and p: "path = filepath_Join [filepath_Join [filepath_Dir src, ''testdata'', ''snapshots''],
                                  name @ ''.golden'']"
    by (auto simp: snapshotPath_def split: option.splits)
  define dir where "dir = filepath_Join [filepath_Dir src, ''testdata'', ''snapshots'']"
  have "filepath_Dir src \<noteq> []" by (simp add: filepath_Dir_def Clean_not_empty)
  then have "dir = filepath_Clean (filepath_Dir src @ ''/testdata/snapshots'')"
    by (simp add: dir_def filepath_Join_def)
  then have dne: "dir \<noteq> []" by (simp add: Clean_not_empty)
  have "path = filepath_Join [dir, name @ ''.golden'']" using p by (simp only: dir_def)
  moreover have "filepath_Join [dir, name @ ''.golden''] = filepath_Clean (dir @ ''/'' @ name @ ''.golden'')"
    using dne by (simp add: filepath_Join_def)
  ultimately have "path = filepath_Clean (dir @ ''/'' @ name @ ''.golden'')" by simp
  then show ?thesis using True f dne dir_def by blast
qed

section \<open>The two branches with a baseline in place\<close>

text \<open>The update branch when a baseline is already at the path.\<close>

lemma snapshot_update_existing:
  assumes "UpdateSnapshots w"
    and sp: "snapshotPath w frames name callerSkip = Inr path"
    and rd: "os_ReadFile (disk w) path = Inr old"
  shows "snapshot L w frames content name callerSkip
         = (Return,
            w\<lparr>disk := (disk w)\<lparr>tree :=
                 (tree (disk w))(abs_key (cwd (disk w)) path \<mapsto> File content)\<rparr>\<rparr>)"
proof -
  let ?d = "disk w"
  let ?key = "abs_key (cwd ?d) path"
  note par = snapshotPath_parent[OF sp, of "cwd ?d"]
  from rd have nm: "namei (tree ?d) [] ?key = Inr (File old)"
    by (auto simp: os_ReadFile_def os_Stat_def split: if_splits sum.splits node.splits)
  from namei_file_parent[OF nm] have "namei (tree ?d) [] (butlast ?key) = Inr Directory" by simp
  then have "os_Stat ?d (filepath_Dir path) = Inr Directory"
    using par by (simp add: os_Stat_def)
  then have mk: "os_MkdirAll ?d (filepath_Dir path) = (None, ?d)" by (rule os_MkdirAll_existing)
  have wr: "os_WriteFile ?d path content = (None, ?d\<lparr>tree := (tree ?d)(?key \<mapsto> File content)\<rparr>)"
    by (rule os_WriteFile_existing[OF rd])
  show ?thesis using assms(1) sp mk wr by (simp add: snapshot_def Let_def)
qed


section \<open>Evaluated examples\<close>

lemma example_with_dirs:
  "empty_disk\<lparr>tree := with_dirs (tree empty_disk) [''tmp'', ''x'', ''a'', ''b'']\<rparr> = dirs_disk"
proof -
  have "with_dirs (tree empty_disk) [''tmp'', ''x'', ''a'', ''b''] k = tree dirs_disk k" for k
    by (auto simp: with_dirs_def empty_disk_def dirs_disk_def prefix_Cons)
  then have "with_dirs (tree empty_disk) [''tmp'', ''x'', ''a'', ''b''] = tree dirs_disk" by (rule ext)
  then show ?thesis by (simp add: empty_disk_def dirs_disk_def)
qed

lemma example_nested:
  "dirs_disk\<lparr>tree := (tree dirs_disk)([''tmp'', ''x'', ''a'', ''b'', ''c.golden''] \<mapsto> File ''hello'')\<rparr>
   = nested_disk"
  by (simp add: dirs_disk_def nested_disk_def)

lemma example_deep_write:
  "os_WriteFile dirs_disk ''/tmp/x/a/b/c.golden'' ''hello'' = (None, nested_disk)"
  by (simp add: os_WriteFile_def abs_key_def walk_step_def dirs_disk_def nested_disk_def Let_def)

lemma example_deep_path:
  "snapshotPath (update_world empty_disk) [] ''a/b/c'' 1 = Inr ''/tmp/x/a/b/c.golden''"
  by (simp add: snapshotPath_def update_world_def filepath_Join_def
      filepath_Clean_def clean_step_def Let_def)

lemma example_deep_key:
  "abs_key (cwd (disk (update_world empty_disk))) ''/tmp/x/a/b/c.golden''
   = [''tmp'', ''x'', ''a'', ''b'', ''c.golden'']"
  by (simp add: abs_key_def walk_step_def update_world_def empty_disk_def)

lemma example_no_files: "tree (disk (update_world empty_disk)) k \<noteq> Some (File c)"
  by (simp add: update_world_def empty_disk_def)



section \<open>The claims about the engine\<close>

text \<open>
  C1. In update mode, with the path resolved, nothing is read or compared.

  On a disk where no regular file stands at a proper ancestor of the path and no
  directory stands at the path itself (and, for a relative path, the working directory
  exists), \<^verbatim>\<open>os.MkdirAll\<close> succeeds and leaves the disk with every missing proper
  ancestor of the path added as a directory, the call returns with nothing reported, the
  disk after it is that disk with the file at the path holding exactly the candidate,
  and every proper ancestor of the path is a directory in it.

  On every disk: when \<^verbatim>\<open>os.MkdirAll\<close> succeeds, the directory of the path is a
  directory after it; when the write then succeeds as well, the call returns with nothing
  reported, the file at the path holds exactly the candidate and every proper ancestor of
  the path is a directory.

  When a baseline is already there, whatever it holds, both steps do succeed, and the
  disk after the call is the disk before it with that one file replaced by the candidate.
\<close>

theorem update_writes_baseline:
  assumes "UpdateSnapshots w"
    and "snapshotPath w frames name callerSkip = Inr path"
  shows "((hd path \<noteq> CHR ''/'' \<longrightarrow> namei (tree (disk w)) [] (cwd (disk w)) = Inr Directory)
          \<and> (\<forall>n c. 0 < n \<and> n < length (abs_key (cwd (disk w)) path) \<longrightarrow>
                 tree (disk w) (take n (abs_key (cwd (disk w)) path)) \<noteq> Some (File c))
          \<and> tree (disk w) (abs_key (cwd (disk w)) path) \<noteq> Some Directory \<longrightarrow>
            os_MkdirAll (disk w) (filepath_Dir path)
              = (None,
                 (disk w)\<lparr>tree :=
                      with_dirs (tree (disk w)) (butlast (abs_key (cwd (disk w)) path))\<rparr>)
            \<and> snapshot L w frames content name callerSkip
              = (Return,
                 w\<lparr>disk := (disk w)\<lparr>tree :=
                      (with_dirs (tree (disk w)) (butlast (abs_key (cwd (disk w)) path)))
                        (abs_key (cwd (disk w)) path \<mapsto> File content)\<rparr>\<rparr>)
            \<and> (\<forall>n. 0 < n \<and> n < length (abs_key (cwd (disk w)) path) \<longrightarrow>
                   ((with_dirs (tree (disk w)) (butlast (abs_key (cwd (disk w)) path)))
                      (abs_key (cwd (disk w)) path \<mapsto> File content))
                     (take n (abs_key (cwd (disk w)) path)) = Some Directory))
       \<and> (\<forall>d1.
            os_MkdirAll (disk w) (filepath_Dir path) = (None, d1) \<longrightarrow>
              os_Stat d1 (filepath_Dir path) = Inr Directory
              \<and> (\<forall>d2.
                   os_WriteFile d1 path content = (None, d2) \<longrightarrow>
                     snapshot L w frames content name callerSkip = (Return, w\<lparr>disk := d2\<rparr>)
                     \<and> os_ReadFile d2 path = Inr content
                     \<and> os_Stat d2 (filepath_Dir path) = Inr Directory
                     \<and> (\<forall>n. 0 < n \<and> n < length (abs_key (cwd d2) path) \<longrightarrow>
                            tree d2 (take n (abs_key (cwd d2) path)) = Some Directory)))
       \<and> (\<forall>old.
            os_ReadFile (disk w) path = Inr old \<longrightarrow>
              snapshot L w frames content name callerSkip
                = (Return,
                   w\<lparr>disk := (disk w)\<lparr>tree :=
                        (tree (disk w))(abs_key (cwd (disk w)) path \<mapsto> File content)\<rparr>\<rparr>))"
proof (intro conjI allI impI)
  let ?T = "tree (disk w)"
  let ?key = "abs_key (cwd (disk w)) path"
  assume h: "(hd path \<noteq> CHR ''/'' \<longrightarrow> namei ?T [] (cwd (disk w)) = Inr Directory)
          \<and> (\<forall>n c. 0 < n \<and> n < length ?key \<longrightarrow> ?T (take n ?key) \<noteq> Some (File c))
          \<and> ?T ?key \<noteq> Some Directory"
  then have cw: "hd path \<noteq> CHR ''/'' \<longrightarrow> namei ?T [] (cwd (disk w)) = Inr Directory"
    and nofile: "\<And>n c. 0 < n \<Longrightarrow> n < length ?key \<Longrightarrow> ?T (take n ?key) \<noteq> Some (File c)"
    and notdir: "?T ?key \<noteq> Some Directory"
    by blast+
  show "os_MkdirAll (disk w) (filepath_Dir path)
          = (None, (disk w)\<lparr>tree := with_dirs ?T (butlast ?key)\<rparr>)"
    by (rule os_MkdirAll_snapshot_dir[OF assms(2) cw nofile])
  show "snapshot L w frames content name callerSkip
              = (Return, w\<lparr>disk := (disk w)\<lparr>tree := (with_dirs ?T (butlast ?key))(?key \<mapsto> File content)\<rparr>\<rparr>)"
    by (rule snapshot_update_creates[OF assms cw nofile notdir])
  fix n
  assume n: "0 < n \<and> n < length ?key"
  have "namei (with_dirs ?T (butlast ?key)) [] (butlast ?key) = Inr Directory"
  proof (rule namei_with_dirs)
    fix m c assume m: "0 < m" "m \<le> length (butlast ?key)"
    then have "?T (take m ?key) \<noteq> Some (File c)" by (intro nofile) simp_all
    then show "?T (take m (butlast ?key)) \<noteq> Some (File c)" using m by (simp add: take_butlast)
  qed
  moreover have "n \<le> length (butlast ?key)" using n by auto
  ultimately have "with_dirs ?T (butlast ?key) ([] @ take n (butlast ?key)) = Some Directory"
    using n by (intro namei_prefixes) blast+
  moreover have "take n (butlast ?key) = take n ?key" using n by (simp add: take_butlast)
  moreover have "take n ?key \<noteq> ?key" using n by (auto dest: arg_cong[where f = length])
  ultimately show "((with_dirs ?T (butlast ?key))(?key \<mapsto> File content)) (take n ?key) = Some Directory"
    by simp
next
  fix d1
  assume mk: "os_MkdirAll (disk w) (filepath_Dir path) = (None, d1)"
  show st: "os_Stat d1 (filepath_Dir path) = Inr Directory" by (rule os_MkdirAll_then_Stat[OF mk])
  fix d2
  assume wr: "os_WriteFile d1 path content = (None, d2)"
  show "snapshot L w frames content name callerSkip = (Return, w\<lparr>disk := d2\<rparr>)"
    using assms mk wr by (simp add: snapshot_def Let_def)
  show "os_ReadFile d2 path = Inr content" by (rule os_WriteFile_then_ReadFile[OF wr])
  from st show "os_Stat d2 (filepath_Dir path) = Inr Directory"
    by (rule os_WriteFile_keeps_dirs[OF wr])
  fix n
  assume n: "0 < n \<and> n < length (abs_key (cwd d2) path)"
  note r = os_WriteFile_result[OF wr]
  let ?key = "abs_key (cwd d1) path"
  from r have c: "cwd d2 = cwd d1" by simp
  have "tree d1 ([] @ take n (butlast ?key)) = Some Directory"
    using r n c by (intro namei_prefixes) auto
  moreover have "take n (butlast ?key) = take n ?key"
    using n c by (simp add: take_butlast)
  moreover have "take n ?key \<noteq> ?key" using n c by (auto dest: arg_cong[where f = length])
  ultimately show "tree d2 (take n (abs_key (cwd d2) path)) = Some Directory"
    using r c by simp
next
  fix old
  assume rd: "os_ReadFile (disk w) path = Inr old"
  show "snapshot L w frames content name callerSkip
                = (Return,
                   w\<lparr>disk := (disk w)\<lparr>tree :=
                        (tree (disk w))(abs_key (cwd (disk w)) path \<mapsto> File content)\<rparr>\<rparr>)"
    by (rule snapshot_update_existing[OF assms rd])
qed

theorem update_writes_baseline_witness:
  "UpdateSnapshots (update_world empty_disk)
   \<and> snapshotPath (update_world empty_disk) [] ''a/b/c'' 1 = Inr ''/tmp/x/a/b/c.golden''
   \<and> hd ''/tmp/x/a/b/c.golden'' = CHR ''/''
   \<and> (\<forall>k c. tree (disk (update_world empty_disk)) k \<noteq> Some (File c))
   \<and> tree (disk (update_world empty_disk)) [''tmp'', ''x'', ''a''] = None
   \<and> tree (disk (update_world empty_disk)) [''tmp'', ''x'', ''a'', ''b''] = None
   \<and> tree (disk (update_world empty_disk)) [''tmp'', ''x'', ''a'', ''b'', ''c.golden''] = None
   \<and> os_MkdirAll (disk (update_world empty_disk)) (filepath_Dir ''/tmp/x/a/b/c.golden'')
       = (None, dirs_disk)
   \<and> tree dirs_disk [''tmp'', ''x'', ''a''] = Some Directory
   \<and> tree dirs_disk [''tmp'', ''x'', ''a'', ''b''] = Some Directory
   \<and> os_Stat dirs_disk (filepath_Dir ''/tmp/x/a/b/c.golden'') = Inr Directory
   \<and> os_WriteFile dirs_disk ''/tmp/x/a/b/c.golden'' ''hello'' = (None, nested_disk)
   \<and> snapshot plain_lib (update_world empty_disk) [] ''hello'' ''a/b/c'' 1
       = (Return, (update_world empty_disk)\<lparr>disk := nested_disk\<rparr>)
   \<and> os_ReadFile nested_disk ''/tmp/x/a/b/c.golden'' = Inr ''hello''
   \<and> UpdateSnapshots (update_world hello_disk)
   \<and> snapshotPath (update_world hello_disk) [] ''n'' 1 = Inr ''/tmp/x/n.golden''
   \<and> os_ReadFile (disk (update_world hello_disk)) ''/tmp/x/n.golden'' = Inr ''hello''
   \<and> snapshot plain_lib (update_world hello_disk) [] ''other'' ''n'' 1
       = (Return,
          (update_world hello_disk)\<lparr>disk := (disk (update_world hello_disk))\<lparr>tree :=
             (tree (disk (update_world hello_disk)))
               (abs_key (cwd (disk (update_world hello_disk))) ''/tmp/x/n.golden''
                  \<mapsto> File ''other'')\<rparr>\<rparr>)"
proof -
  let ?w = "update_world empty_disk"
  let ?T = "tree (disk ?w)"
  let ?P = "''/tmp/x/a/b/c.golden''"
  let ?key = "abs_key (cwd (disk ?w)) ?P"
  have a: "UpdateSnapshots ?w" by (simp add: update_world_def)
  have b: "snapshotPath ?w [] ''a/b/c'' 1 = Inr ?P" by (rule example_deep_path)
  have c: "hd ?P = CHR ''/''" by simp
  have d: "\<forall>k c. ?T k \<noteq> Some (File c)" by (simp add: example_no_files)
  have e1: "?T [''tmp'', ''x'', ''a''] = None"
    and e2: "?T [''tmp'', ''x'', ''a'', ''b''] = None"
    and e3: "?T [''tmp'', ''x'', ''a'', ''b'', ''c.golden''] = None"
    by (simp_all add: update_world_def empty_disk_def)
  have f1: "tree dirs_disk [''tmp'', ''x'', ''a''] = Some Directory"
    and f2: "tree dirs_disk [''tmp'', ''x'', ''a'', ''b''] = Some Directory"
    by (simp_all add: dirs_disk_def)
  note key = example_deep_key
  have dk: "disk ?w = empty_disk" by (simp add: update_world_def)
  have made: "(disk ?w)\<lparr>tree := with_dirs ?T (butlast ?key)\<rparr> = dirs_disk"
    unfolding key by (simp add: dk example_with_dirs)
  have hyp: "(hd ?P \<noteq> CHR ''/'' \<longrightarrow> namei ?T [] (cwd (disk ?w)) = Inr Directory)
          \<and> (\<forall>n c. 0 < n \<and> n < length ?key \<longrightarrow> ?T (take n ?key) \<noteq> Some (File c))
          \<and> ?T ?key \<noteq> Some Directory"
    using d e3 by (simp add: key)
  note inst = update_writes_baseline[OF a b, of plain_lib "''hello''"]
  from inst have "(hd ?P \<noteq> CHR ''/'' \<longrightarrow> namei ?T [] (cwd (disk ?w)) = Inr Directory)
          \<and> (\<forall>n c. 0 < n \<and> n < length ?key \<longrightarrow> ?T (take n ?key) \<noteq> Some (File c))
          \<and> ?T ?key \<noteq> Some Directory \<longrightarrow>
            os_MkdirAll (disk ?w) (filepath_Dir ?P)
              = (None, (disk ?w)\<lparr>tree := with_dirs ?T (butlast ?key)\<rparr>)
            \<and> snapshot plain_lib ?w [] ''hello'' ''a/b/c'' 1
              = (Return,
                 ?w\<lparr>disk := (disk ?w)\<lparr>tree := (with_dirs ?T (butlast ?key))(?key \<mapsto> File ''hello'')\<rparr>\<rparr>)
            \<and> (\<forall>n. 0 < n \<and> n < length ?key \<longrightarrow>
                   ((with_dirs ?T (butlast ?key))(?key \<mapsto> File ''hello''))
                     (take n ?key) = Some Directory)"
    by (rule conjunct1)
  from mp[OF this hyp]
  have "os_MkdirAll (disk ?w) (filepath_Dir ?P)
          = (None, (disk ?w)\<lparr>tree := with_dirs ?T (butlast ?key)\<rparr>)"
    by (rule conjunct1)
  then have mk: "os_MkdirAll (disk ?w) (filepath_Dir ?P) = (None, dirs_disk)"
    by (simp only: made)
  have wr: "os_WriteFile dirs_disk ?P ''hello'' = (None, nested_disk)" by (rule example_deep_write)
  from inst have "\<forall>d1.
            os_MkdirAll (disk ?w) (filepath_Dir ?P) = (None, d1) \<longrightarrow>
              os_Stat d1 (filepath_Dir ?P) = Inr Directory
              \<and> (\<forall>d2.
                   os_WriteFile d1 ?P ''hello'' = (None, d2) \<longrightarrow>
                     snapshot plain_lib ?w [] ''hello'' ''a/b/c'' 1 = (Return, ?w\<lparr>disk := d2\<rparr>)
                     \<and> os_ReadFile d2 ?P = Inr ''hello''
                     \<and> os_Stat d2 (filepath_Dir ?P) = Inr Directory
                     \<and> (\<forall>n. 0 < n \<and> n < length (abs_key (cwd d2) ?P) \<longrightarrow>
                            tree d2 (take n (abs_key (cwd d2) ?P)) = Some Directory))"
    by (rule conjunct1[OF conjunct2])
  then have g: "os_Stat dirs_disk (filepath_Dir ?P) = Inr Directory
       \<and> snapshot plain_lib ?w [] ''hello'' ''a/b/c'' 1 = (Return, ?w\<lparr>disk := nested_disk\<rparr>)
       \<and> os_ReadFile nested_disk ?P = Inr ''hello''"
    using mk wr by blast
  let ?v = "update_world hello_disk"
  have a2: "UpdateSnapshots ?v" by (simp add: update_world_def)
  have b2: "snapshotPath ?v [] ''n'' 1 = Inr ''/tmp/x/n.golden''" by (rule example_path)
  have c2: "os_ReadFile (disk ?v) ''/tmp/x/n.golden'' = Inr ''hello''"
    by (simp add: update_world_def example_read)
  from update_writes_baseline[OF a2 b2, of plain_lib "''other''"]
  have "\<forall>old. os_ReadFile (disk ?v) ''/tmp/x/n.golden'' = Inr old \<longrightarrow>
          snapshot plain_lib ?v [] ''other'' ''n'' 1
            = (Return,
               ?v\<lparr>disk := (disk ?v)\<lparr>tree :=
                  (tree (disk ?v))(abs_key (cwd (disk ?v)) ''/tmp/x/n.golden'' \<mapsto> File ''other'')\<rparr>\<rparr>)"
    by (rule conjunct2[OF conjunct2])
  then have h: "snapshot plain_lib ?v [] ''other'' ''n'' 1
            = (Return,
               ?v\<lparr>disk := (disk ?v)\<lparr>tree :=
                  (tree (disk ?v))(abs_key (cwd (disk ?v)) ''/tmp/x/n.golden'' \<mapsto> File ''other'')\<rparr>\<rparr>)"
    using c2 by blast
  show ?thesis
    using a b c d e1 e2 e3 mk f1 f2 conjunct1[OF g] wr conjunct1[OF conjunct2[OF g]]
      conjunct2[OF conjunct2[OF g]] a2 b2 c2 h
    by (intro conjI)
qed

text \<open>
  C2, amended. In compare mode, when looking up the resolved path reports that nothing
  exists there, the call stops the test with \<^verbatim>\<open>Fatalf\<close> and leaves the world as it was,
  for every candidate. The message contains the resolved path and the text
  \<^verbatim>\<open>UPDATE_SNAPSHOTS=1\<close>.
\<close>

theorem missing_baseline_fatal:
  assumes "\<not> UpdateSnapshots w"
    and "snapshotPath w frames name callerSkip = Inr path"
    and "os_Stat (disk w) path = Inl ENOENT"
  shows "\<exists>msg. snapshot L w frames content name callerSkip = (Fatalf msg, w)
           \<and> strings_Contains msg path
           \<and> strings_Contains msg ''UPDATE_SNAPSHOTS=1''"
proof -
  let ?msg = "msg_not_found L name path"
  have rd: "os_ReadFile (disk w) path = Inl (PathError ''open'' path ENOENT)"
    using assms(3) by (simp add: os_ReadFile_def)
  have out: "snapshot L w frames content name callerSkip = (Fatalf ?msg, w)"
    using assms(1,2) rd by (simp add: snapshot_def)
  have "?msg = (''snapshot '' @ Sprintf_q L name @ '': golden file not found at '') @ path
               @ ''\<newline>Run with UPDATE_SNAPSHOTS=1 to create it.''"
    by (simp add: msg_not_found_def)
  then have p: "strings_Contains ?msg path" by (simp only: strings_Contains_mid)
  have "?msg = (''snapshot '' @ Sprintf_q L name @ '': golden file not found at '' @ path
               @ ''\<newline>Run with '') @ ''UPDATE_SNAPSHOTS=1'' @ '' to create it.''"
    by (simp add: msg_not_found_def)
  then have u: "strings_Contains ?msg ''UPDATE_SNAPSHOTS=1''" by (simp only: strings_Contains_mid)
  show ?thesis using out p u by blast
qed

theorem missing_baseline_fatal_witness:
  "\<not> UpdateSnapshots (compare_world empty_disk)
   \<and> snapshotPath (compare_world empty_disk) [] ''n'' 1 = Inr ''/tmp/x/n.golden''
   \<and> os_Stat (disk (compare_world empty_disk)) ''/tmp/x/n.golden'' = Inl ENOENT
   \<and> (\<exists>msg. snapshot plain_lib (compare_world empty_disk) [] [] ''n'' 1
               = (Fatalf msg, compare_world empty_disk)
           \<and> strings_Contains msg ''/tmp/x/n.golden''
           \<and> strings_Contains msg ''UPDATE_SNAPSHOTS=1'')"
proof -
  have a: "\<not> UpdateSnapshots (compare_world empty_disk)" by (simp add: compare_world_def)
  have b: "snapshotPath (compare_world empty_disk) [] ''n'' 1 = Inr ''/tmp/x/n.golden''"
    by (rule example_path)
  have c: "os_Stat (disk (compare_world empty_disk)) ''/tmp/x/n.golden'' = Inl ENOENT"
    by (simp add: compare_world_def example_missing)
  show ?thesis
    using a b c missing_baseline_fatal[OF a b c, of plain_lib "[]"] by (simp only: simp_thms)
qed

text \<open>
  C2 as stated fails: for the name \<^verbatim>\<open>n\<close>, the directory \<^verbatim>\<open>/tmp/x\<close> and the empty
  candidate, the message of the missing baseline does not contain the word \<^verbatim>\<open>update\<close>;
  the instruction is spelled \<^verbatim>\<open>UPDATE_SNAPSHOTS=1\<close>.
\<close>

theorem missing_message_lacks_update:
  \<open>fst (snapshot plain_lib (compare_world empty_disk) [] [] ''n'' 1)
     = Fatalf ''snapshot "n": golden file not found at /tmp/x/n.golden\<newline>Run with UPDATE_SNAPSHOTS=1 to create it.''
   \<and> \<not> strings_Contains
         ''snapshot "n": golden file not found at /tmp/x/n.golden\<newline>Run with UPDATE_SNAPSHOTS=1 to create it.''
         ''update''\<close>
  by code_simp

text \<open>
  C3. In compare mode, when the baseline read from the resolved path is exactly the
  candidate (equality of the two byte strings, nothing trimmed), the call returns with
  nothing reported and leaves the world as it was; so however many such calls have been
  made before, the next one returns with nothing reported as well.
\<close>

theorem compare_matched:
  assumes "\<not> UpdateSnapshots w"
    and "snapshotPath w frames name callerSkip = Inr path"
    and "os_ReadFile (disk w) path = Inr content"
  shows "snapshot L w frames content name callerSkip = (Return, w)
       \<and> fst (snapshot L (((\<lambda>v. snd (snapshot L v frames content name callerSkip)) ^^ k) w)
                frames content name callerSkip) = Return"
proof -
  have one: "snapshot L w frames content name callerSkip = (Return, w)"
    using assms by (simp add: snapshot_def)
  have "((\<lambda>v. snd (snapshot L v frames content name callerSkip)) ^^ k) w = w"
    by (induction k) (simp_all add: one)
  then show ?thesis by (simp add: one)
qed

theorem compare_matched_witness:
  "\<not> UpdateSnapshots (compare_world hello_disk)
   \<and> snapshotPath (compare_world hello_disk) [] ''n'' 1 = Inr ''/tmp/x/n.golden''
   \<and> os_ReadFile (disk (compare_world hello_disk)) ''/tmp/x/n.golden'' = Inr ''hello''
   \<and> snapshot plain_lib (compare_world hello_disk) [] ''hello'' ''n'' 1
       = (Return, compare_world hello_disk)
   \<and> fst (snapshot plain_lib
            (((\<lambda>v. snd (snapshot plain_lib v [] ''hello'' ''n'' 1)) ^^ 5)
               (compare_world hello_disk))
            [] ''hello'' ''n'' 1) = Return"
proof -
  have a: "\<not> UpdateSnapshots (compare_world hello_disk)" by (simp add: compare_world_def)
  have b: "snapshotPath (compare_world hello_disk) [] ''n'' 1 = Inr ''/tmp/x/n.golden''"
    by (rule example_path)
  have c: "os_ReadFile (disk (compare_world hello_disk)) ''/tmp/x/n.golden'' = Inr ''hello''"
    by (simp add: compare_world_def example_read)
  show ?thesis
    using a b c compare_matched[OF a b c, of plain_lib 5] by (simp only: simp_thms)
qed

text \<open>
  C4. When a call in update mode with name N and content C has returned, a call in
  compare mode with the same N and C that follows it returns with nothing reported:
  what the update wrote is what the comparison reads.
\<close>

theorem update_then_compare_matched:
  assumes "UpdateSnapshots w"
    and "snapshot L w frames content name callerSkip = (Return, w1)"
  shows "snapshot L (w1\<lparr>UpdateSnapshots := False\<rparr>) frames content name callerSkip
         = (Return, w1\<lparr>UpdateSnapshots := False\<rparr>)"
proof -
  from assms(2) obtain path where p: "snapshotPath w frames name callerSkip = Inr path"
    by (auto simp: snapshot_def split: sum.splits)
  from assms p obtain d1 d2 where
    wr: "os_WriteFile d1 path content = (None, d2)" and w1: "w1 = w\<lparr>disk := d2\<rparr>"
    by (auto simp: snapshot_def Let_def split: prod.splits option.splits)
  have rd: "os_ReadFile d2 path = Inr content" by (rule os_WriteFile_then_ReadFile[OF wr])
  show ?thesis using p rd by (simp add: snapshot_def w1)
qed

theorem update_then_compare_matched_witness:
  "UpdateSnapshots (update_world empty_disk)
   \<and> snapshot plain_lib (update_world empty_disk) [] ''hello'' ''n'' 1
       = (Return, update_world hello_disk)
   \<and> snapshot plain_lib ((update_world hello_disk)\<lparr>UpdateSnapshots := False\<rparr>) [] ''hello'' ''n'' 1
       = (Return, (update_world hello_disk)\<lparr>UpdateSnapshots := False\<rparr>)"
proof -
  have a: "UpdateSnapshots (update_world empty_disk)" by (simp add: update_world_def)
  have b: "snapshot plain_lib (update_world empty_disk) [] ''hello'' ''n'' 1
       = (Return, update_world hello_disk)" by (rule example_update)
  show ?thesis using a b update_then_compare_matched[OF a b] by (simp only: simp_thms)
qed

text \<open>
  C7, amended. The name is not sanitized, whatever it is and wherever the directory comes
  from. The directory is the base directory when one is set, and otherwise
  \<^verbatim>\<open>testdata/snapshots\<close> beside the source file of the caller. The resolved path is the
  cleaned form of the directory, a separator, the name as given and \<^verbatim>\<open>.golden\<close>; the
  file it names is reached from the directory by walking the elements of the name, split
  at its separators, one by one: a separator in the name descends into a subdirectory
  and \<^verbatim>\<open>..\<close> climbs. A name without a separator is the last element of the path exactly
  as it was given: the path ends in the name followed by \<^verbatim>\<open>.golden\<close>, after nothing or
  after a separator.
\<close>

theorem snapshotPath_verbatim:
  assumes "snapshotPath w frames name callerSkip = Inr path"
  shows "\<exists>dir. dir \<noteq> []
           \<and> (snapshotBaseDir w \<noteq> [] \<longrightarrow> dir = snapshotBaseDir w)
           \<and> (snapshotBaseDir w = [] \<longrightarrow>
                (\<exists>file. runtime_Caller frames callerSkip = Some file
                   \<and> dir = filepath_Join [filepath_Dir file, ''testdata'', ''snapshots'']))
           \<and> path = filepath_Clean (dir @ ''/'' @ name @ ''.golden'')
           \<and> (\<forall>wd. abs_key wd path
                     = foldl walk_step (abs_key wd dir) (split_on (CHR ''/'') (name @ ''.golden'')))
           \<and> (CHR ''/'' \<notin> set name \<longrightarrow>
                (\<exists>pre. path = pre @ name @ ''.golden'' \<and> (pre = [] \<or> last pre = CHR ''/'')))"
proof -
  from snapshotPath_dir[OF assms] obtain dir where dne: "dir \<noteq> []"
    and b1: "snapshotBaseDir w \<noteq> [] \<longrightarrow> dir = snapshotBaseDir w"
    and b2: "snapshotBaseDir w = [] \<longrightarrow>
                (\<exists>file. runtime_Caller frames callerSkip = Some file
                   \<and> dir = filepath_Join [filepath_Dir file, ''testdata'', ''snapshots''])"
    and p: "path = filepath_Clean (dir @ ''/'' @ name @ ''.golden'')"
    by blast
  have k: "\<forall>wd. abs_key wd path
                 = foldl walk_step (abs_key wd dir) (split_on (CHR ''/'') (name @ ''.golden''))"
    unfolding p using abs_key_under_dir[OF dne, of _ "name @ ''.golden''"] by simp
  have l: "CHR ''/'' \<notin> set name \<longrightarrow>
           (\<exists>pre. path = pre @ name @ ''.golden'' \<and> (pre = [] \<or> last pre = CHR ''/''))"
  proof
    assume "CHR ''/'' \<notin> set name"
    then have n: "CHR ''/'' \<notin> set (name @ ''.golden'')" by simp
    from Clean_last_name[OF n golden_is_a_name dne] p
    show "\<exists>pre. path = pre @ name @ ''.golden'' \<and> (pre = [] \<or> last pre = CHR ''/'')"
      by simp
  qed
  show ?thesis using dne b1 b2 p k l by blast
qed

theorem snapshotPath_verbatim_witness:
  "snapshotPath default_world test_frames ''a/b'' 1 = Inr ''/src/pkg/testdata/snapshots/a/b.golden''
   \<and> snapshotBaseDir default_world = []
   \<and> runtime_Caller test_frames 1 = Some ''/src/pkg/view_test.go''
   \<and> filepath_Join [filepath_Dir ''/src/pkg/view_test.go'', ''testdata'', ''snapshots'']
       = ''/src/pkg/testdata/snapshots''
   \<and> ''/src/pkg/testdata/snapshots/a/b.golden''
       = filepath_Clean (''/src/pkg/testdata/snapshots'' @ ''/'' @ ''a/b'' @ ''.golden'')
   \<and> abs_key [] ''/src/pkg/testdata/snapshots/a/b.golden''
       = foldl walk_step (abs_key [] ''/src/pkg/testdata/snapshots'') [''a'', ''b.golden'']
   \<and> snapshotPath (compare_world empty_disk) [] ''n'' 1 = Inr ''/tmp/x/n.golden''
   \<and> snapshotBaseDir (compare_world empty_disk) = ''/tmp/x''
   \<and> CHR ''/'' \<notin> set ''n''
   \<and> ''/tmp/x/n.golden'' = filepath_Clean (''/tmp/x'' @ ''/'' @ ''n'' @ ''.golden'')
   \<and> (\<exists>pre. ''/tmp/x/n.golden'' = pre @ ''n'' @ ''.golden'' \<and> (pre = [] \<or> last pre = CHR ''/''))"
proof -
  have a: "snapshotPath default_world test_frames ''a/b'' 1
           = Inr ''/src/pkg/testdata/snapshots/a/b.golden''"
    by code_simp
  have base: "snapshotBaseDir default_world = []" by (simp add: default_world_def)
  have caller: "runtime_Caller test_frames 1 = Some ''/src/pkg/view_test.go''"
    by (simp add: runtime_Caller_def test_frames_def)
  have dir: "filepath_Join [filepath_Dir ''/src/pkg/view_test.go'', ''testdata'', ''snapshots'']
             = ''/src/pkg/testdata/snapshots''"
    by code_simp
  have sp: "split_on (CHR ''/'') (''a/b'' @ ''.golden'') = [''a'', ''b.golden'']" by simp
  from snapshotPath_verbatim[OF a] obtain d where
    b2: "snapshotBaseDir default_world = [] \<longrightarrow>
           (\<exists>src. runtime_Caller test_frames 1 = Some src
              \<and> d = filepath_Join [filepath_Dir src, ''testdata'', ''snapshots''])"
    and p: "''/src/pkg/testdata/snapshots/a/b.golden'' = filepath_Clean (d @ ''/'' @ ''a/b'' @ ''.golden'')"
    and k: "\<forall>wd. abs_key wd ''/src/pkg/testdata/snapshots/a/b.golden''
                 = foldl walk_step (abs_key wd d) (split_on (CHR ''/'') (''a/b'' @ ''.golden''))"
    by blast
  from b2 base caller have "d = filepath_Join [filepath_Dir ''/src/pkg/view_test.go'', ''testdata'', ''snapshots'']"
    by auto
  then have d: "d = ''/src/pkg/testdata/snapshots''" by (simp only: dir)
  have k': "abs_key [] ''/src/pkg/testdata/snapshots/a/b.golden''
       = foldl walk_step (abs_key [] ''/src/pkg/testdata/snapshots'') [''a'', ''b.golden'']"
    using k[rule_format, of "[]"] unfolding d sp .
  have a': "snapshotPath (compare_world empty_disk) [] ''n'' 1 = Inr ''/tmp/x/n.golden''"
    by (rule example_path)
  have base': "snapshotBaseDir (compare_world empty_disk) = ''/tmp/x''"
    by (simp add: compare_world_def)
  have ns: "CHR ''/'' \<notin> set ''n''" by simp
  from snapshotPath_verbatim[OF a'] obtain e where
    b1: "snapshotBaseDir (compare_world empty_disk) \<noteq> [] \<longrightarrow> e = snapshotBaseDir (compare_world empty_disk)"
    and p': "''/tmp/x/n.golden'' = filepath_Clean (e @ ''/'' @ ''n'' @ ''.golden'')"
    and l: "CHR ''/'' \<notin> set ''n'' \<longrightarrow>
             (\<exists>pre. ''/tmp/x/n.golden'' = pre @ ''n'' @ ''.golden'' \<and> (pre = [] \<or> last pre = CHR ''/''))"
    by blast
  from b1 have e: "e = ''/tmp/x''" unfolding base' by simp
  show ?thesis using a base caller dir p[unfolded d] k' a' base' ns p'[unfolded e] mp[OF l ns]
    by (intro conjI)
qed

text \<open>
  C7 as stated fails: the name \<^verbatim>\<open>a/b\<close> is used as it is, its separator stays a
  separator and the file lands in the subdirectory \<^verbatim>\<open>a\<close>; a name that climbs with
  \<^verbatim>\<open>..\<close> leaves the snapshot directory.
\<close>

theorem snapshotPath_not_sanitized:
  "snapshotPath (compare_world empty_disk) [] ''a/b'' 1 = Inr ''/tmp/x/a/b.golden''
   \<and> filepath_Dir ''/tmp/x/a/b.golden'' = ''/tmp/x/a''
   \<and> snapshotPath (compare_world empty_disk) [] ''../../etc/passwd'' 1 = Inr ''/etc/passwd.golden''"
  by code_simp




text \<open>
  C9. The four public functions all run \<^verbatim>\<open>snapshot\<close> with the same frame count:
  \<^verbatim>\<open>SnapshotStr\<close> on a view is \<^verbatim>\<open>SnapshotStrRaw\<close> on the stripped view,
  \<^verbatim>\<open>SnapshotView\<close> on a model is \<^verbatim>\<open>SnapshotStrRaw\<close> on the model's stripped view, and
  \<^verbatim>\<open>SnapshotViewRaw\<close> is \<^verbatim>\<open>SnapshotStrRaw\<close> on the model's view as it is.
\<close>

theorem entry_points_reduce:
  "SnapshotStr L w frames v n = SnapshotStrRaw L w frames (StripANSI L v) n
   \<and> SnapshotView L w frames m n = SnapshotStrRaw L w frames (StripANSI L (View m)) n
   \<and> SnapshotViewRaw L w frames m n = SnapshotStrRaw L w frames (View m) n
   \<and> SnapshotStrRaw L w frames v n = snapshot L w frames v n 3"
  by (simp add: SnapshotStr_def SnapshotStrRaw_def SnapshotView_def SnapshotViewRaw_def)

text \<open>
  C10. In compare mode a call leaves the world as it found it, whatever its outcome:
  the disk (and with it every file and directory) and the two package variables are
  unchanged.
\<close>

theorem compare_mode_frame:
  assumes "\<not> UpdateSnapshots w"
  shows "snd (snapshot L w frames content name callerSkip) = w"
  using assms by (simp add: snapshot_def split: sum.splits)

theorem compare_mode_frame_witness:
  "\<not> UpdateSnapshots (compare_world hello_disk)
   \<and> snd (snapshot plain_lib (compare_world hello_disk) [] ''other'' ''n'' 1)
       = compare_world hello_disk"
proof -
  have a: "\<not> UpdateSnapshots (compare_world hello_disk)" by (simp add: compare_world_def)
  show ?thesis using a compare_mode_frame[OF a] by (simp only: simp_thms)
qed

end
